theory Spec2Isabelle
  imports Complex_Main
begin

section \<open>Beam calculator: the numerical core of src/App.jsx\<close>

text \<open>
  The development embeds the numerical functions of \<^verbatim>\<open>src/App.jsx\<close>:
  \<^verbatim>\<open>uniqueSorted\<close>, \<^verbatim>\<open>beamElementStiffness\<close>, \<^verbatim>\<open>solveLinearSystem\<close>,
  \<^verbatim>\<open>assembleBeamModel\<close> and \<^verbatim>\<open>findExtrema\<close>.

  Numbers. A JavaScript number is an IEEE double. The embedding reads every number as a
  real and every operation as the exact one: rounding, infinities and NaN are outside the
  model. Division by zero is the one place where HOL's total division (\<open>x / 0 = 0\<close>)
  and the source (\<open>Infinity\<close> or \<open>NaN\<close>) part; every division of the source is
  either by a literal, by a pivot that the source has made non-zero, or by the cube of an
  element length, and the theorems about the latter assume the length is positive.

  Arrays. A JavaScript array is a list. The functions are embedded on the inputs the
  program feeds them: indices within range, and in \<^verbatim>\<open>solveLinearSystem\<close> a matrix with
  at least as many rows and columns as the right-hand side has entries.
  A \<^verbatim>\<open>for (let i = lo; i < hi; i += 1)\<close> statement is a fold over \<open>[lo..<hi]\<close>.
  The source has no \<^verbatim>\<open>throw\<close>, and on these inputs no read of it fails, so the
  functions are total and return values.

  The functions are embedded twice where a claim is about what a call writes: once on
  values, and \<^verbatim>\<open>solveLinearSystem\<close> once more on a store of arrays, with the proof
  that the two agree.
\<close>

subsection \<open>Data model\<close>

text \<open>The objects \<^verbatim>\<open>{position, type}\<close>, \<^verbatim>\<open>{position, magnitude}\<close> and
  \<^verbatim>\<open>{start, end, intensity}\<close> of the source, and the argument object of
  \<^verbatim>\<open>assembleBeamModel\<close>. The type of a support is the string the source compares.\<close>

record support =
  support_position :: real
  support_type :: string

record pointLoad =
  load_position :: real
  load_magnitude :: real

record udl =
  udl_start :: real
  udl_end :: real
  udl_intensity :: real

record beamInput =
  span :: real
  E :: real
  I :: real
  supports :: "support list"
  pointLoads :: "pointLoad list"
  udls :: "udl list"

subsection \<open>uniqueSorted and the mesh\<close>

text \<open>\<^verbatim>\<open>[...new Set(values)]\<close>: a Set keeps the first occurrence of every value, in
  insertion order.\<close>

definition newSet :: "real list \<Rightarrow> real list" where
  "newSet values = fold (\<lambda>value s. if value \<in> set s then s else s @ [value]) values []"

text \<open>\<^verbatim>\<open>[...new Set(values.map((value) => Number(value)))].sort((a, b) => a - b)\<close>.
  \<^verbatim>\<open>Number\<close> is the identity on numbers; the comparator sorts ascending.\<close>

definition uniqueSorted :: "real list \<Rightarrow> real list" where
  "uniqueSorted values = sort (newSet (map (\<lambda>value. value) values))"

text \<open>The first statement of \<^verbatim>\<open>assembleBeamModel\<close>.\<close>

definition nodePositions :: "beamInput \<Rightarrow> real list" where
  "nodePositions inp =
     uniqueSorted
       ([0, span inp]
        @ map support_position (supports inp)
        @ map load_position (pointLoads inp)
        @ concat (map (\<lambda>load. [udl_start load, udl_end load]) (udls inp)))"

subsection \<open>beamElementStiffness\<close>

definition beamElementStiffness :: "real \<Rightarrow> real \<Rightarrow> real \<Rightarrow> real list list" where
  "beamElementStiffness E' I' L =
     (let factor = (E' * I') / L ^ 3 in
      [[12 * factor, 6 * L * factor, - 12 * factor, 6 * L * factor],
       [6 * L * factor, 4 * L * L * factor, - 6 * L * factor, 2 * L * L * factor],
       [- 12 * factor, - 6 * L * factor, 12 * factor, - 6 * L * factor],
       [6 * L * factor, 2 * L * L * factor, - 6 * L * factor, 4 * L * L * factor]])"

subsection \<open>solveLinearSystem\<close>

text \<open>The inner loop that looks for the row of the largest magnitude in column \<open>i\<close>,
  from row \<open>i + 1\<close> on, starting with \<open>maxRow = i\<close>.\<close>

definition findMaxRow :: "real list list \<Rightarrow> nat \<Rightarrow> nat \<Rightarrow> nat" where
  "findMaxRow a sz i =
     fold (\<lambda>k maxRow. if \<bar>a ! k ! i\<bar> > \<bar>a ! maxRow ! i\<bar> then k else maxRow) [i + 1..<sz] i"

text \<open>The two destructuring assignments: the right-hand sides are read before either
  element is written.\<close>

definition swapRows :: "nat \<Rightarrow> nat \<Rightarrow> real list list \<times> real list \<Rightarrow> real list list \<times> real list" where
  "swapRows i maxRow ab =
     (case ab of (a, b) \<Rightarrow>
        if maxRow \<noteq> i then (a[i := a ! maxRow, maxRow := a ! i], b[i := b ! maxRow, maxRow := b ! i])
        else (a, b))"

text \<open>\<^verbatim>\<open>const pivot = a[i][i] || 1e-12\<close>: a pivot that is zero is replaced by
  \<open>10\<^sup>-\<^sup>1\<^sup>2\<close>; any other pivot, however small, is used as it is.\<close>

definition pivotOf :: "real list list \<Rightarrow> nat \<Rightarrow> real" where
  "pivotOf a i = (if a ! i ! i = 0 then 1 / 10 ^ 12 else a ! i ! i)"

definition normalizeRow :: "nat \<Rightarrow> nat \<Rightarrow> real \<Rightarrow> real list list \<times> real list \<Rightarrow> real list list \<times> real list" where
  "normalizeRow sz i pivot ab =
     (case ab of (a, b) \<Rightarrow>
        (fold (\<lambda>j a. a[i := (a ! i)[j := a ! i ! j / pivot]]) [i..<sz] a,
         b[i := b ! i / pivot]))"

text \<open>The body of the loop over \<open>k\<close> for one \<open>k \<noteq> i\<close>.\<close>

definition eliminateRow :: "nat \<Rightarrow> nat \<Rightarrow> nat \<Rightarrow> real list list \<times> real list \<Rightarrow> real list list \<times> real list" where
  "eliminateRow sz i k ab =
     (case ab of (a, b) \<Rightarrow>
        let factor = a ! k ! i in
        (fold (\<lambda>j a. a[k := (a ! k)[j := a ! k ! j - factor * a ! i ! j]]) [i..<sz] a,
         b[k := b ! k - factor * b ! i]))"

definition eliminate :: "nat \<Rightarrow> nat \<Rightarrow> real list list \<times> real list \<Rightarrow> real list list \<times> real list" where
  "eliminate sz i ab = fold (\<lambda>k ab. if k = i then ab else eliminateRow sz i k ab) [0..<sz] ab"

text \<open>One pass of the outer loop, for column \<open>i\<close>.\<close>

definition columnStep :: "nat \<Rightarrow> nat \<Rightarrow> real list list \<times> real list \<Rightarrow> real list list \<times> real list" where
  "columnStep sz i ab =
     (let maxRow = findMaxRow (fst ab) sz i;
          ab1 = swapRows i maxRow ab;
          pivot = pivotOf (fst ab1) i;
          ab2 = normalizeRow sz i pivot ab1
      in eliminate sz i ab2)"

text \<open>The function works on copies \<open>a\<close> and \<open>b\<close> of its arguments and returns \<open>b\<close>.
  In this value model a copy is the value itself; the store model further down keeps
  the copies and the caller's arrays apart.\<close>

definition solveLinearSystem :: "real list list \<Rightarrow> real list \<Rightarrow> real list" where
  "solveLinearSystem matrix vector =
     (let sz = length vector;
          a = map (\<lambda>row. row) matrix;
          b = vector
      in snd (fold (columnStep sz) [0..<sz] (a, b)))"

subsection \<open>assembleBeamModel\<close>

text \<open>\<^verbatim>\<open>Array.prototype.indexOf\<close>: the first index holding the value, or \<open>-1\<close>.\<close>

fun indexOf :: "real list \<Rightarrow> real \<Rightarrow> int" where
  "indexOf [] v = - 1"
| "indexOf (x # xs) v =
     (if x = v then 0 else (let r = indexOf xs v in if r < 0 then - 1 else r + 1))"

definition dofMap :: "nat \<Rightarrow> nat list" where
  "dofMap e = [2 * e, 2 * e + 1, 2 * (e + 1), 2 * (e + 1) + 1]"

text \<open>The double loop \<^verbatim>\<open>K[dofMap[i]][dofMap[j]] += kLocal[i][j]\<close>.\<close>

definition addLocalStiffness :: "real list list \<Rightarrow> nat list \<Rightarrow> real list list \<Rightarrow> real list list" where
  "addLocalStiffness kLocal dm K =
     fold (\<lambda>i K.
        fold (\<lambda>j K. K[dm ! i := (K ! (dm ! i))[dm ! j := K ! (dm ! i) ! (dm ! j) + kLocal ! i ! j]])
          [0..<4] K)
       [0..<4] K"

text \<open>\<^verbatim>\<open>udls.filter(...).reduce((sum, load) => sum + load.intensity, 0)\<close>.\<close>

definition udlForElement :: "udl list \<Rightarrow> real \<Rightarrow> real \<Rightarrow> real" where
  "udlForElement us x1 x2 =
     fold (\<lambda>load sum. sum + udl_intensity load)
       (filter (\<lambda>load. udl_start load \<le> x1 \<and> udl_end load \<ge> x2) us) 0"

definition eqForces :: "real \<Rightarrow> real \<Rightarrow> real list" where
  "eqForces w L = [(w * L) / 2, (w * L * L) / 12, (w * L) / 2, (- w * L * L) / 12]"

definition addEqForces :: "real list \<Rightarrow> nat list \<Rightarrow> real list \<Rightarrow> real list" where
  "addEqForces eq dm F = fold (\<lambda>i F. F[dm ! i := F ! (dm ! i) + eq ! i]) [0..<4] F"

text \<open>The body of the loop over the elements, on the pair of \<open>K\<close> and \<open>F\<close>.\<close>

definition elementStep :: "beamInput \<Rightarrow> real list \<Rightarrow> nat \<Rightarrow> real list list \<times> real list \<Rightarrow> real list list \<times> real list" where
  "elementStep inp nodes e KF =
     (case KF of (K, F) \<Rightarrow>
        let x1 = nodes ! e; x2 = nodes ! (e + 1); L = x2 - x1 in
        if L \<le> 0 then (K, F)
        else
          let kLocal = beamElementStiffness (E inp) (I inp) L;
              dm = dofMap e;
              K' = addLocalStiffness kLocal dm K;
              w = udlForElement (udls inp) x1 x2;
              F' = (if w \<noteq> 0 then addEqForces (eqForces w L) dm F else F)
          in (K', F'))"

definition assembleElements :: "beamInput \<Rightarrow> real list list \<times> real list" where
  "assembleElements inp =
     (let nodes = nodePositions inp;
          nodeCount = length nodes;
          dofCount = nodeCount * 2;
          K = replicate dofCount (replicate dofCount 0);
          F = replicate dofCount 0
      in fold (elementStep inp nodes) [0..<nodeCount - 1] (K, F))"

definition stiffnessK :: "beamInput \<Rightarrow> real list list" where
  "stiffnessK inp = fst (assembleElements inp)"

text \<open>\<^verbatim>\<open>pointLoads.forEach\<close>.\<close>

definition addPointLoad :: "real list \<Rightarrow> pointLoad \<Rightarrow> real list \<Rightarrow> real list" where
  "addPointLoad nodes load F =
     (let nodeIndex = indexOf nodes (load_position load) in
      if nodeIndex \<ge> 0 then F[nat (nodeIndex * 2) := F ! nat (nodeIndex * 2) + load_magnitude load]
      else F)"

definition loadF :: "beamInput \<Rightarrow> real list" where
  "loadF inp = fold (addPointLoad (nodePositions inp)) (pointLoads inp) (snd (assembleElements inp))"

text \<open>\<^verbatim>\<open>supports.forEach\<close> on the set \<^verbatim>\<open>constrained\<close>.\<close>

definition constrainSupport :: "real list \<Rightarrow> support \<Rightarrow> nat set \<Rightarrow> nat set" where
  "constrainSupport nodes s c =
     (let nodeIndex = indexOf nodes (support_position s) in
      if nodeIndex < 0 then c
      else
        let c1 = (if support_type s = ''fixed''
                  then insert (nat (nodeIndex * 2 + 1)) (insert (nat (nodeIndex * 2)) c) else c)
        in (if support_type s = ''pinned'' \<or> support_type s = ''roller''
            then insert (nat (nodeIndex * 2)) c1 else c1))"

definition constrained :: "beamInput \<Rightarrow> nat set" where
  "constrained inp = fold (constrainSupport (nodePositions inp)) (supports inp) {}"

definition dofCount :: "beamInput \<Rightarrow> nat" where
  "dofCount inp = length (nodePositions inp) * 2"

text \<open>The loop that pushes every DOF on \<^verbatim>\<open>fixedDofs\<close> or on \<^verbatim>\<open>freeDofs\<close>; the pair is
  (\<^verbatim>\<open>freeDofs\<close>, \<^verbatim>\<open>fixedDofs\<close>).\<close>

definition partitionDofs :: "beamInput \<Rightarrow> nat list \<times> nat list" where
  "partitionDofs inp =
     fold (\<lambda>i (freeDofs, fixedDofs).
            if i \<in> constrained inp then (freeDofs, fixedDofs @ [i]) else (freeDofs @ [i], fixedDofs))
       [0..<dofCount inp] ([], [])"

definition freeDofs :: "beamInput \<Rightarrow> nat list" where
  "freeDofs inp = fst (partitionDofs inp)"

definition reducedK :: "beamInput \<Rightarrow> real list list" where
  "reducedK inp = map (\<lambda>row. map (\<lambda>col. stiffnessK inp ! row ! col) (freeDofs inp)) (freeDofs inp)"

definition reducedF :: "beamInput \<Rightarrow> real list" where
  "reducedF inp = map (\<lambda>row. loadF inp ! row) (freeDofs inp)"

definition freeDisplacements :: "beamInput \<Rightarrow> real list" where
  "freeDisplacements inp =
     (if length (freeDofs inp) > 0 then solveLinearSystem (reducedK inp) (reducedF inp) else [])"

text \<open>\<^verbatim>\<open>freeDofs.forEach((dof, index) => { displacements[dof] = freeDisplacements[index]; })\<close>.\<close>

definition displacements :: "beamInput \<Rightarrow> real list" where
  "displacements inp =
     fold (\<lambda>index d. d[freeDofs inp ! index := freeDisplacements inp ! index])
       [0..<length (freeDofs inp)] (replicate (dofCount inp) 0)"

text \<open>\<^verbatim>\<open>row.reduce((sum, value, j) => sum + value * displacements[j], 0)\<close>.\<close>

definition rowTimes :: "real list \<Rightarrow> real list \<Rightarrow> real" where
  "rowTimes row d = fold (\<lambda>j sum. sum + row ! j * d ! j) [0..<length row] 0"

definition reactions :: "beamInput \<Rightarrow> real list" where
  "reactions inp =
     map (\<lambda>i. rowTimes (stiffnessK inp ! i) (displacements inp) - loadF inp ! i)
       [0..<length (stiffnessK inp)]"

record beamModel =
  model_nodePositions :: "real list"
  model_displacements :: "real list"
  model_reactions :: "real list"
  model_K :: "real list list"
  model_F :: "real list"

definition assembleBeamModel :: "beamInput \<Rightarrow> beamModel" where
  "assembleBeamModel inp =
     \<lparr>model_nodePositions = nodePositions inp,
      model_displacements = displacements inp,
      model_reactions = reactions inp,
      model_K = stiffnessK inp,
      model_F = loadF inp\<rparr>"

subsection \<open>findExtrema\<close>

text \<open>A sample of the diagram data and the result object of \<^verbatim>\<open>findExtrema\<close>. The
  \<^verbatim>\<open>key\<close> of the source names one of the fields of a sample; here it is the selector.\<close>

record point =
  point_x :: real
  point_deflection :: real
  point_moment :: real
  point_shear :: real

record extrema =
  min_val :: real
  minX :: real
  max_val :: real
  maxX :: real

text \<open>The callback of \<^verbatim>\<open>data.reduce\<close>: two strict comparisons, the second on the
  accumulator the first has updated.\<close>

definition extremaStep :: "(point \<Rightarrow> real) \<Rightarrow> point \<Rightarrow> extrema \<Rightarrow> extrema" where
  "extremaStep key p acc =
     (let acc1 = (if key p < min_val acc then acc\<lparr>min_val := key p, minX := point_x p\<rparr> else acc)
      in (if key p > max_val acc1 then acc1\<lparr>max_val := key p, maxX := point_x p\<rparr> else acc1))"

definition findExtrema :: "point list \<Rightarrow> (point \<Rightarrow> real) \<Rightarrow> extrema" where
  "findExtrema data key =
     (if length data = 0 then \<lparr>min_val = 0, minX = 0, max_val = 0, maxX = 0\<rparr>
      else fold (extremaStep key) data
             \<lparr>min_val = key (data ! 0), minX = point_x (data ! 0),
              max_val = key (data ! 0), maxX = point_x (data ! 0)\<rparr>)"

subsection \<open>Properties the results are measured against\<close>

text \<open>What the result of \<^verbatim>\<open>findExtrema\<close> is measured against: index \<open>i\<close> is the
  first sample of the series that attains the least (greatest) value of the series.\<close>

definition firstMinAt :: "(point \<Rightarrow> real) \<Rightarrow> point list \<Rightarrow> nat \<Rightarrow> bool" where
  "firstMinAt key ds i \<longleftrightarrow>
     i < length ds \<and> (\<forall>j < length ds. key (ds ! i) \<le> key (ds ! j)) \<and> (\<forall>j < i. key (ds ! i) < key (ds ! j))"

definition firstMaxAt :: "(point \<Rightarrow> real) \<Rightarrow> point list \<Rightarrow> nat \<Rightarrow> bool" where
  "firstMaxAt key ds i \<longleftrightarrow>
     i < length ds \<and> (\<forall>j < length ds. key (ds ! j) \<le> key (ds ! i)) \<and> (\<forall>j < i. key (ds ! j) < key (ds ! i))"

definition extremaInv :: "(point \<Rightarrow> real) \<Rightarrow> point list \<Rightarrow> extrema \<Rightarrow> bool" where
  "extremaInv key ds r \<longleftrightarrow>
     (\<exists>i. firstMinAt key ds i \<and> min_val r = key (ds ! i) \<and> minX r = point_x (ds ! i))
     \<and> (\<exists>i. firstMaxAt key ds i \<and> max_val r = key (ds ! i) \<and> maxX r = point_x (ds ! i))"

text \<open>Matrices as lists of rows: an \<open>n \<times> n\<close> matrix, and a symmetric one.\<close>

definition squareM :: "nat \<Rightarrow> real list list \<Rightarrow> bool" where
  "squareM n K \<longleftrightarrow> length K = n \<and> (\<forall>r < n. length (K ! r) = n)"

definition symmetricM :: "nat \<Rightarrow> real list list \<Rightarrow> bool" where
  "symmetricM n K \<longleftrightarrow> (\<forall>i < n. \<forall>j < n. K ! i ! j = K ! j ! i)"

text \<open>The quantities the load vector is measured against: the sum of the intensities of
  the distributed loads whose interval \<open>[start, end]\<close> contains \<open>[x1, x2]\<close>, the
  equivalent nodal loads of an intensity \<open>w\<close> on a length \<open>L\<close>, and what element
  \<open>e\<close> contributes to DOF \<open>d\<close>.\<close>

definition coveringIntensity :: "udl list \<Rightarrow> real \<Rightarrow> real \<Rightarrow> real" where
  "coveringIntensity us x1 x2 =
     sum_list (map udl_intensity (filter (\<lambda>load. udl_start load \<le> x1 \<and> x2 \<le> udl_end load) us))"

definition equivalentNodalLoads :: "real \<Rightarrow> real \<Rightarrow> real list" where
  "equivalentNodalLoads w L = [w * L / 2, w * L\<^sup>2 / 12, w * L / 2, - (w * L\<^sup>2) / 12]"

definition elementLoad :: "beamInput \<Rightarrow> nat \<Rightarrow> nat \<Rightarrow> real" where
  "elementLoad inp e d =
     (let x1 = nodePositions inp ! e;
          x2 = nodePositions inp ! (e + 1);
          w = coveringIntensity (udls inp) x1 x2
      in if 2 * e \<le> d \<and> d < 2 * e + 4 then equivalentNodalLoads w (x2 - x1) ! (d - 2 * e) else 0)"

text \<open>A beam of span 4 on two supports under two distributed loads, the second one
  starting at 1; the mesh is \<open>[0, 1, 3, 4]\<close>.\<close>

definition twoLoadBeam :: beamInput where
  "twoLoadBeam =
     \<lparr>span = 4, E = 1, I = 1,
      supports = [\<lparr>support_position = 0, support_type = ''pinned''\<rparr>,
                  \<lparr>support_position = 3, support_type = ''roller''\<rparr>],
      pointLoads = [],
      udls = [\<lparr>udl_start = 0, udl_end = 4, udl_intensity = 6\<rparr>,
              \<lparr>udl_start = 1, udl_end = 4, udl_intensity = 12\<rparr>]\<rparr>"

text \<open>A system for \<^verbatim>\<open>solveLinearSystem\<close>: an \<open>n \<times> n\<close> matrix and a right-hand side
  of \<open>n\<close> entries.\<close>

definition wfSys :: "nat \<Rightarrow> real list list \<Rightarrow> real list \<Rightarrow> bool" where
  "wfSys n a b \<longleftrightarrow> squareM n a \<and> length b = n"

text \<open>Equation \<open>k\<close> of the system \<open>a x = t b\<close>; with \<open>t = 1\<close> the system itself, with
  \<open>t = 0\<close> the homogeneous one.\<close>

definition rowEq :: "nat \<Rightarrow> real list list \<Rightarrow> real list \<Rightarrow> (nat \<Rightarrow> real) \<Rightarrow> real \<Rightarrow> nat \<Rightarrow> bool" where
  "rowEq n a b x t k \<longleftrightarrow> (\<Sum>j<n. a ! k ! j * x j) = t * b ! k"

text \<open>The columns before \<open>i\<close> are those of the unit matrix.\<close>

definition reducedUpTo :: "nat \<Rightarrow> nat \<Rightarrow> real list list \<Rightarrow> bool" where
  "reducedUpTo n i a \<longleftrightarrow> (\<forall>r<n. \<forall>c<i. a ! r ! c = (if r = c then 1 else 0))"

text \<open>A matrix is nonsingular when the zero vector is the only vector it maps to zero.\<close>

definition nonsingular :: "real list list \<Rightarrow> bool" where
  "nonsingular A \<longleftrightarrow>
     (\<forall>x. length x = length A \<longrightarrow>
          (\<forall>k < length A. (\<Sum>j < length A. A ! k ! j * x ! j) = 0) \<longrightarrow>
          (\<forall>j < length A. x ! j = 0))"

text \<open>The invariant of the outer loop of \<^verbatim>\<open>solveLinearSystem\<close> before column \<open>i\<close>:
  the first \<open>i\<close> columns are reduced and the system has the solutions of the original one.\<close>

definition solverInv :: "nat \<Rightarrow> real list list \<Rightarrow> real list \<Rightarrow> nat \<Rightarrow> real list list \<times> real list \<Rightarrow> bool" where
  "solverInv n a0 b0 i ab \<longleftrightarrow>
     wfSys n (fst ab) (snd ab) \<and> reducedUpTo n i (fst ab)
     \<and> (\<forall>x t. (\<forall>k<n. rowEq n (fst ab) (snd ab) x t k) \<longleftrightarrow> (\<forall>k<n. rowEq n a0 b0 x t k))"

text \<open>A cantilever of span 2 with unit rigidity, fixed at 0, under a unit load at the tip.\<close>

definition cantileverBeam :: beamInput where
  "cantileverBeam =
     \<lparr>span = 2, E = 1, I = 1,
      supports = [\<lparr>support_position = 0, support_type = ''fixed''\<rparr>],
      pointLoads = [\<lparr>load_position = 2, load_magnitude = 1\<rparr>],
      udls = []\<rparr>"

text \<open>Beams used as examples. A beam of span 2 with unit rigidity and a unit load at the
  tip: on a single roller at 0, without any support, and as a beam fixed at both ends
  without load. A beam of span 0, and a beam of span \<open>-2\<close> fixed at 0.\<close>

definition rollerOnlyBeam :: beamInput where
  "rollerOnlyBeam =
     \<lparr>span = 2, E = 1, I = 1,
      supports = [\<lparr>support_position = 0, support_type = ''roller''\<rparr>],
      pointLoads = [\<lparr>load_position = 2, load_magnitude = 1\<rparr>],
      udls = []\<rparr>"

definition unsupportedBeam :: beamInput where
  "unsupportedBeam =
     \<lparr>span = 2, E = 1, I = 1, supports = [],
      pointLoads = [\<lparr>load_position = 2, load_magnitude = 1\<rparr>], udls = []\<rparr>"

definition clampedBeam :: beamInput where
  "clampedBeam =
     \<lparr>span = 2, E = 1, I = 1,
      supports = [\<lparr>support_position = 0, support_type = ''fixed''\<rparr>,
                  \<lparr>support_position = 2, support_type = ''fixed''\<rparr>],
      pointLoads = [], udls = []\<rparr>"

definition zeroSpanBeam :: beamInput where
  "zeroSpanBeam = \<lparr>span = 0, E = 1, I = 1, supports = [], pointLoads = [], udls = []\<rparr>"

definition negativeSpanBeam :: beamInput where
  "negativeSpanBeam =
     \<lparr>span = - 2, E = 1, I = 1,
      supports = [\<lparr>support_position = 0, support_type = ''fixed''\<rparr>],
      pointLoads = [\<lparr>load_position = - 2, load_magnitude = 1\<rparr>], udls = []\<rparr>"

subsection \<open>solveLinearSystem on a store\<close>

text \<open>The value model cannot tell a copy from the original. To follow what the function
  writes, arrays live in a store: an address is an index into the store, an array of
  numbers holds reals, a matrix is an array of the addresses of its rows, and a new
  array is allocated at the end of the store. Every read and write of the source is a
  read or write of the store at the address the source's expression denotes.\<close>

type_synonym addr = nat

datatype obj = Numbers "real list" | Rows "addr list"

type_synonym store = "obj list"

definition numbersAt :: "store \<Rightarrow> addr \<Rightarrow> real list" where
  "numbersAt s p = (case s ! p of Numbers xs \<Rightarrow> xs | Rows _ \<Rightarrow> [])"

definition rowsAt :: "store \<Rightarrow> addr \<Rightarrow> addr list" where
  "rowsAt s p = (case s ! p of Rows rs \<Rightarrow> rs | Numbers _ \<Rightarrow> [])"

text \<open>\<^verbatim>\<open>a[k][j]\<close> and \<^verbatim>\<open>a[k][j] = v\<close>; \<^verbatim>\<open>b[k]\<close> and \<^verbatim>\<open>b[k] = v\<close>.\<close>

definition readEntry :: "store \<Rightarrow> addr \<Rightarrow> nat \<Rightarrow> nat \<Rightarrow> real" where
  "readEntry s a k j = numbersAt s (rowsAt s a ! k) ! j"

definition writeEntry :: "addr \<Rightarrow> nat \<Rightarrow> nat \<Rightarrow> real \<Rightarrow> store \<Rightarrow> store" where
  "writeEntry a k j v s = (let r = rowsAt s a ! k in s[r := Numbers ((numbersAt s r)[j := v])])"

definition readNumber :: "store \<Rightarrow> addr \<Rightarrow> nat \<Rightarrow> real" where
  "readNumber s b k = numbersAt s b ! k"

definition writeNumber :: "addr \<Rightarrow> nat \<Rightarrow> real \<Rightarrow> store \<Rightarrow> store" where
  "writeNumber b k v s = s[b := Numbers ((numbersAt s b)[k := v])]"

definition findMaxRowS :: "store \<Rightarrow> addr \<Rightarrow> nat \<Rightarrow> nat \<Rightarrow> nat" where
  "findMaxRowS s a sz i =
     fold (\<lambda>k maxRow. if \<bar>readEntry s a k i\<bar> > \<bar>readEntry s a maxRow i\<bar> then k else maxRow)
       [i + 1..<sz] i"

text \<open>The swap of \<^verbatim>\<open>a[i]\<close> and \<^verbatim>\<open>a[maxRow]\<close> exchanges two addresses in the array
  \<open>a\<close>; no row is written.\<close>

definition swapRowsS :: "addr \<Rightarrow> addr \<Rightarrow> nat \<Rightarrow> nat \<Rightarrow> store \<Rightarrow> store" where
  "swapRowsS a b i maxRow s =
     (if maxRow \<noteq> i then
        let s1 = s[a := Rows ((rowsAt s a)[i := rowsAt s a ! maxRow, maxRow := rowsAt s a ! i])]
        in s1[b := Numbers ((numbersAt s1 b)[i := numbersAt s1 b ! maxRow, maxRow := numbersAt s1 b ! i])]
      else s)"

definition pivotOfS :: "store \<Rightarrow> addr \<Rightarrow> nat \<Rightarrow> real" where
  "pivotOfS s a i = (if readEntry s a i i = 0 then 1 / 10 ^ 12 else readEntry s a i i)"

definition normalizeRowS :: "addr \<Rightarrow> addr \<Rightarrow> nat \<Rightarrow> nat \<Rightarrow> real \<Rightarrow> store \<Rightarrow> store" where
  "normalizeRowS a b sz i pivot s =
     (let s1 = fold (\<lambda>j s. writeEntry a i j (readEntry s a i j / pivot) s) [i..<sz] s
      in writeNumber b i (readNumber s1 b i / pivot) s1)"

definition eliminateRowS :: "addr \<Rightarrow> addr \<Rightarrow> nat \<Rightarrow> nat \<Rightarrow> nat \<Rightarrow> store \<Rightarrow> store" where
  "eliminateRowS a b sz i k s =
     (let factor = readEntry s a k i;
          s1 = fold (\<lambda>j s. writeEntry a k j (readEntry s a k j - factor * readEntry s a i j) s) [i..<sz] s
      in writeNumber b k (readNumber s1 b k - factor * readNumber s1 b i) s1)"

definition eliminateS :: "addr \<Rightarrow> addr \<Rightarrow> nat \<Rightarrow> nat \<Rightarrow> store \<Rightarrow> store" where
  "eliminateS a b sz i s = fold (\<lambda>k s. if k = i then s else eliminateRowS a b sz i k s) [0..<sz] s"

definition columnStepS :: "addr \<Rightarrow> addr \<Rightarrow> nat \<Rightarrow> nat \<Rightarrow> store \<Rightarrow> store" where
  "columnStepS a b sz i s =
     (let maxRow = findMaxRowS s a sz i;
          s1 = swapRowsS a b i maxRow s;
          pivot = pivotOfS s1 a i;
          s2 = normalizeRowS a b sz i pivot s1
      in eliminateS a b sz i s2)"

text \<open>\<^verbatim>\<open>matrix.map((row) => row.slice())\<close>: one new array of numbers per row, in order,
  then the new array of their addresses.\<close>

definition copyRows :: "store \<Rightarrow> addr \<Rightarrow> store \<times> addr list" where
  "copyRows s matrix =
     fold (\<lambda>row (s, acc). (s @ [Numbers (numbersAt s row)], acc @ [length s])) (rowsAt s matrix) (s, [])"

text \<open>The function: \<open>a\<close> and \<open>b\<close> are the addresses of the copies; the result is the
  address \<open>b\<close> and the store after the call.\<close>

definition solveLinearSystemS :: "store \<Rightarrow> addr \<Rightarrow> addr \<Rightarrow> addr \<times> store" where
  "solveLinearSystemS s matrix vector =
     (let sz = length (numbersAt s vector);
          (s1, rows) = copyRows s matrix;
          a = length s1;
          s2 = s1 @ [Rows rows];
          b = length s2;
          s3 = s2 @ [Numbers (numbersAt s2 vector)]
      in (b, fold (columnStepS a b sz) [0..<sz] s3))"

text \<open>A call the program can make: the matrix and the vector are in the store, the rows
  of the matrix are in the store, the matrix has a row for every entry of the vector,
  and every row has an entry for every entry of the vector.\<close>

definition wfCall :: "store \<Rightarrow> addr \<Rightarrow> addr \<Rightarrow> bool" where
  "wfCall s matrix vector \<longleftrightarrow>
     matrix < length s \<and> vector < length s
     \<and> (\<forall>r \<in> set (rowsAt s matrix). r < length s)
     \<and> length (numbersAt s vector) \<le> length (rowsAt s matrix)
     \<and> (\<forall>r \<in> set (rowsAt s matrix). length (numbersAt s vector) \<le> length (numbersAt s r))"

text \<open>The relation between the store during the call and the pair \<open>(a, b)\<close> of the
  value model: the objects of the caller's store \<open>s0\<close> are untouched, \<open>a\<close> and \<open>b\<close>
  and the rows of \<open>a\<close> are distinct addresses allocated by the call, and the arrays at
  these addresses hold the values of the pair.\<close>

definition simR :: "store \<Rightarrow> addr \<Rightarrow> addr \<Rightarrow> store \<Rightarrow> real list list \<times> real list \<Rightarrow> bool" where
  "simR s0 a b s AB \<longleftrightarrow>
     take (length s0) s = s0
     \<and> length s0 \<le> a \<and> a < length s \<and> length s0 \<le> b \<and> b < length s \<and> a \<noteq> b
     \<and> s ! a = Rows (rowsAt s a) \<and> s ! b = Numbers (numbersAt s b)
     \<and> distinct (rowsAt s a)
     \<and> (\<forall>r \<in> set (rowsAt s a). length s0 \<le> r \<and> r < length s \<and> r \<noteq> a \<and> r \<noteq> b)
     \<and> fst AB = map (numbersAt s) (rowsAt s a)
     \<and> snd AB = numbersAt s b"

text \<open>A store with a \<open>2 \<times> 2\<close> matrix at address 2, its rows at 0 and 1, and a vector
  at address 3.\<close>

definition exampleStore :: store where
  "exampleStore = [Numbers [2, 1], Numbers [1, 3], Rows [0, 1], Numbers [3, 5]]"

section \<open>The mesh\<close>

lemma newSet_fold_set:
  "set (fold (\<lambda>value s. if value \<in> set s then s else s @ [value]) vs acc) = set acc \<union> set vs"
  by (induction vs arbitrary: acc) auto

lemma newSet_fold_distinct:
  "distinct acc \<Longrightarrow> distinct (fold (\<lambda>value s. if value \<in> set s then s else s @ [value]) vs acc)"
  by (induction vs arbitrary: acc) auto

lemma set_newSet: "set (newSet values) = set values"
  by (simp add: newSet_def newSet_fold_set)

lemma distinct_newSet: "distinct (newSet values)"
  by (simp add: newSet_def newSet_fold_distinct)

lemma set_uniqueSorted: "set (uniqueSorted values) = set values"
  by (simp add: uniqueSorted_def set_newSet)

lemma distinct_uniqueSorted: "distinct (uniqueSorted values)"
  by (simp add: uniqueSorted_def distinct_newSet)

lemma sorted_uniqueSorted: "sorted (uniqueSorted values)"
  by (simp add: uniqueSorted_def)

lemma strict_uniqueSorted: "sorted_wrt (<) (uniqueSorted values)"
  using sorted_uniqueSorted [of "values"] distinct_uniqueSorted [of "values"]
  by (simp add: strict_sorted_iff)

text \<open>
  Claim C4. The node positions of the mesh are strictly increasing, hence free of
  duplicates, and they are exactly: 0, the span, the position of every support, the
  position of every point load, and the start and the end of every distributed load.
\<close>

theorem nodePositions_strictly_increasing_complete:
  "sorted_wrt (<) (nodePositions inp)
   \<and> distinct (nodePositions inp)
   \<and> set (nodePositions inp) =
       {0, span inp}
       \<union> support_position ` set (supports inp)
       \<union> load_position ` set (pointLoads inp)
       \<union> udl_start ` set (udls inp)
       \<union> udl_end ` set (udls inp)"
proof -
  have "set (nodePositions inp) =
       {0, span inp}
       \<union> support_position ` set (supports inp)
       \<union> load_position ` set (pointLoads inp)
       \<union> udl_start ` set (udls inp)
       \<union> udl_end ` set (udls inp)"
    unfolding nodePositions_def set_uniqueSorted by auto
  then show ?thesis
    by (simp add: nodePositions_def strict_uniqueSorted distinct_uniqueSorted)
qed

section \<open>The element stiffness matrix\<close>

lemma less_4_cases: "(i::nat) < 4 \<longleftrightarrow> i = 0 \<or> i = 1 \<or> i = 2 \<or> i = 3"
  by arith

lemma all_less_4: "(\<forall>i<4::nat. P i) = (P 0 \<and> P 1 \<and> P 2 \<and> P 3)"
  by (auto simp: less_4_cases)

text \<open>
  Claim C7. For a length \<open>L > 0\<close> the element stiffness matrix is \<open>E I / L\<^sup>3\<close> times
  the matrix \<open>[[12, 6L, -12, 6L], [6L, 4L\<^sup>2, -6L, 2L\<^sup>2], [-12, -6L, 12, -6L],
  [6L, 2L\<^sup>2, -6L, 4L\<^sup>2]]\<close>, and it is symmetric.
\<close>

theorem beamElementStiffness_standard_symmetric:
  assumes "L > 0"
  shows "beamElementStiffness E' I' L =
           map (map (\<lambda>c. E' * I' / L ^ 3 * c))
             [[12, 6 * L, - 12, 6 * L],
              [6 * L, 4 * L\<^sup>2, - 6 * L, 2 * L\<^sup>2],
              [- 12, - 6 * L, 12, - 6 * L],
              [6 * L, 2 * L\<^sup>2, - 6 * L, 4 * L\<^sup>2]]
         \<and> length (beamElementStiffness E' I' L) = 4
         \<and> (\<forall>i < 4. length (beamElementStiffness E' I' L ! i) = 4)
         \<and> (\<forall>i < 4. \<forall>j < 4.
               beamElementStiffness E' I' L ! i ! j = beamElementStiffness E' I' L ! j ! i)"
  by (simp add: beamElementStiffness_def Let_def all_less_4 power2_eq_square power3_eq_cube)

theorem beamElementStiffness_standard_symmetric_witness:
  "beamElementStiffness 3 5 2 =
     [[45 / 2, 45 / 2, - 45 / 2, 45 / 2],
      [45 / 2, 30, - 45 / 2, 15],
      [- 45 / 2, - 45 / 2, 45 / 2, - 45 / 2],
      [45 / 2, 15, - 45 / 2, 30]]
   \<and> beamElementStiffness 3 5 2 ! 1 ! 3 = beamElementStiffness 3 5 2 ! 3 ! 1"
  using beamElementStiffness_standard_symmetric [of 2 3 5] by simp

section \<open>The extrema finder\<close>

lemma firstMinAt_keep:
  assumes "firstMinAt key ds i" "key (ds ! i) \<le> key p"
  shows "firstMinAt key (ds @ [p]) i \<and> (ds @ [p]) ! i = ds ! i"
  using assms unfolding firstMinAt_def
  by (auto simp: nth_append less_Suc_eq)

lemma firstMinAt_new:
  assumes "firstMinAt key ds i" "key p < key (ds ! i)"
  shows "firstMinAt key (ds @ [p]) (length ds)"
  using assms unfolding firstMinAt_def
  by (auto simp: nth_append less_Suc_eq)

lemma firstMaxAt_keep:
  assumes "firstMaxAt key ds i" "key p \<le> key (ds ! i)"
  shows "firstMaxAt key (ds @ [p]) i \<and> (ds @ [p]) ! i = ds ! i"
  using assms unfolding firstMaxAt_def
  by (auto simp: nth_append less_Suc_eq)

lemma firstMaxAt_new:
  assumes "firstMaxAt key ds i" "key (ds ! i) < key p"
  shows "firstMaxAt key (ds @ [p]) (length ds)"
  using assms unfolding firstMaxAt_def
  by (auto simp: nth_append less_Suc_eq)

lemma extremaInv_step:
  assumes "extremaInv key ds r"
  shows "extremaInv key (ds @ [p]) (extremaStep key p r)"
proof -
  from assms obtain i k where
    mn: "firstMinAt key ds i" "min_val r = key (ds ! i)" "minX r = point_x (ds ! i)" and
    mx: "firstMaxAt key ds k" "max_val r = key (ds ! k)" "maxX r = point_x (ds ! k)"
    unfolding extremaInv_def by blast
  let ?r1 = "if key p < min_val r then r\<lparr>min_val := key p, minX := point_x p\<rparr> else r"
  have r': "extremaStep key p r =
      (if key p > max_val r then ?r1\<lparr>max_val := key p, maxX := point_x p\<rparr> else ?r1)"
    by (simp add: extremaStep_def Let_def)
  have min_part: "\<exists>i'. firstMinAt key (ds @ [p]) i' \<and> min_val ?r1 = key ((ds @ [p]) ! i')
        \<and> minX ?r1 = point_x ((ds @ [p]) ! i')"
  proof (cases "key p < min_val r")
    case True
    then have "firstMinAt key (ds @ [p]) (length ds)"
      using firstMinAt_new [OF mn(1), of p] mn(2) by simp
    with True show ?thesis by (intro exI [of _ "length ds"]) simp
  next
    case False
    then have "firstMinAt key (ds @ [p]) i \<and> (ds @ [p]) ! i = ds ! i"
      using firstMinAt_keep [OF mn(1), of p] mn(2) by simp
    with False mn show ?thesis by (intro exI [of _ i]) simp
  qed
  have max_part: "\<exists>k'. firstMaxAt key (ds @ [p]) k'
        \<and> max_val (extremaStep key p r) = key ((ds @ [p]) ! k')
        \<and> maxX (extremaStep key p r) = point_x ((ds @ [p]) ! k')"
  proof (cases "key p > max_val r")
    case True
    then have "firstMaxAt key (ds @ [p]) (length ds)"
      using firstMaxAt_new [OF mx(1), of p] mx(2) by simp
    with True show ?thesis unfolding r' by (intro exI [of _ "length ds"]) simp
  next
    case False
    then have "firstMaxAt key (ds @ [p]) k \<and> (ds @ [p]) ! k = ds ! k"
      using firstMaxAt_keep [OF mx(1), of p] mx(2) by simp
    with False mx show ?thesis unfolding r' by (intro exI [of _ k]) simp
  qed
  have same_min: "min_val (extremaStep key p r) = min_val ?r1" "minX (extremaStep key p r) = minX ?r1"
    unfolding r' by simp_all
  show ?thesis
    unfolding extremaInv_def using min_part max_part same_min by metis
qed

lemma extremaInv_fold:
  "extremaInv key ds r \<Longrightarrow> extremaInv key (ds @ xs) (fold (extremaStep key) xs r)"
proof (induction xs arbitrary: ds r)
  case Nil
  then show ?case by simp
next
  case (Cons p xs)
  from Cons.IH [OF extremaInv_step [OF Cons.prems, of p]]
  show ?case by simp
qed

lemma extremaInv_init:
  "extremaInv key [p]
     \<lparr>min_val = key p, minX = point_x p, max_val = key p, maxX = point_x p\<rparr>"
  by (simp add: extremaInv_def firstMinAt_def firstMaxAt_def)

lemma extremaInv_findExtrema:
  assumes "data \<noteq> []"
  shows "extremaInv key data (findExtrema data key)"
proof -
  from assms obtain p rest where d: "data = p # rest" by (cases data) auto
  let ?init = "\<lparr>min_val = key p, minX = point_x p, max_val = key p, maxX = point_x p\<rparr>"
  have first: "extremaStep key p ?init = ?init"
    by (simp add: extremaStep_def)
  have "extremaInv key ([p] @ rest) (fold (extremaStep key) rest ?init)"
    by (rule extremaInv_fold [OF extremaInv_init])
  then show ?thesis
    by (simp add: findExtrema_def d first)
qed

text \<open>
  Claim C9. On the empty series \<^verbatim>\<open>findExtrema\<close> returns
  \<open>{min: 0, minX: 0, max: 0, maxX: 0}\<close>. On a non-empty series it returns the least
  and the greatest value of the series, each with the \<open>x\<close> of the first sample that
  attains it: every earlier sample is strictly greater (strictly smaller), so a later
  sample with an equal value does not replace the recorded \<open>x\<close>.
\<close>

theorem findExtrema_first_min_max:
  "findExtrema [] key = \<lparr>min_val = 0, minX = 0, max_val = 0, maxX = 0\<rparr>
   \<and> (data \<noteq> [] \<longrightarrow>
        (\<exists>i. firstMinAt key data i
              \<and> min_val (findExtrema data key) = key (data ! i)
              \<and> minX (findExtrema data key) = point_x (data ! i))
        \<and> (\<exists>i. firstMaxAt key data i
              \<and> max_val (findExtrema data key) = key (data ! i)
              \<and> maxX (findExtrema data key) = point_x (data ! i)))"
  using extremaInv_findExtrema [of data key]
  by (simp add: findExtrema_def extremaInv_def)

theorem findExtrema_first_min_max_witness:
  "[\<lparr>point_x = 0, point_deflection = 0, point_moment = 0, point_shear = 2\<rparr>,
    \<lparr>point_x = 1, point_deflection = 0, point_moment = 0, point_shear = - 1\<rparr>,
    \<lparr>point_x = 2, point_deflection = 0, point_moment = 0, point_shear = 2\<rparr>,
    \<lparr>point_x = 3, point_deflection = 0, point_moment = 0, point_shear = - 1\<rparr>] \<noteq> []
   \<and> findExtrema
        [\<lparr>point_x = 0, point_deflection = 0, point_moment = 0, point_shear = 2\<rparr>,
         \<lparr>point_x = 1, point_deflection = 0, point_moment = 0, point_shear = - 1\<rparr>,
         \<lparr>point_x = 2, point_deflection = 0, point_moment = 0, point_shear = 2\<rparr>,
         \<lparr>point_x = 3, point_deflection = 0, point_moment = 0, point_shear = - 1\<rparr>] point_shear
       = \<lparr>min_val = - 1, minX = 1, max_val = 2, maxX = 0\<rparr>
   \<and> (\<exists>i. firstMinAt point_shear
          [\<lparr>point_x = 0, point_deflection = 0, point_moment = 0, point_shear = 2\<rparr>,
           \<lparr>point_x = 1, point_deflection = 0, point_moment = 0, point_shear = - 1\<rparr>,
           \<lparr>point_x = 2, point_deflection = 0, point_moment = 0, point_shear = 2\<rparr>,
           \<lparr>point_x = 3, point_deflection = 0, point_moment = 0, point_shear = - 1\<rparr>] i
        \<and> - 1 = point_shear
            ([\<lparr>point_x = 0, point_deflection = 0, point_moment = 0, point_shear = 2\<rparr>,
              \<lparr>point_x = 1, point_deflection = 0, point_moment = 0, point_shear = - 1\<rparr>,
              \<lparr>point_x = 2, point_deflection = 0, point_moment = 0, point_shear = 2\<rparr>,
              \<lparr>point_x = 3, point_deflection = 0, point_moment = 0, point_shear = - 1\<rparr>] ! i)
        \<and> 1 = point_x
            ([\<lparr>point_x = 0, point_deflection = 0, point_moment = 0, point_shear = 2\<rparr>,
              \<lparr>point_x = 1, point_deflection = 0, point_moment = 0, point_shear = - 1\<rparr>,
              \<lparr>point_x = 2, point_deflection = 0, point_moment = 0, point_shear = 2\<rparr>,
              \<lparr>point_x = 3, point_deflection = 0, point_moment = 0, point_shear = - 1\<rparr>] ! i))"
proof -
  let ?d = "[\<lparr>point_x = 0, point_deflection = 0, point_moment = 0, point_shear = 2\<rparr>,
    \<lparr>point_x = 1, point_deflection = 0, point_moment = 0, point_shear = - 1\<rparr>,
    \<lparr>point_x = 2, point_deflection = 0, point_moment = 0, point_shear = 2\<rparr>,
    \<lparr>point_x = 3, point_deflection = 0, point_moment = 0, point_shear = - 1\<rparr>]"
  have ev: "findExtrema ?d point_shear = \<lparr>min_val = - 1, minX = 1, max_val = 2, maxX = 0\<rparr>"
    by (simp add: findExtrema_def extremaStep_def)
  have ne: "?d \<noteq> []" by simp
  from findExtrema_first_min_max [of point_shear ?d] ne
  have "\<exists>i. firstMinAt point_shear ?d i
              \<and> min_val (findExtrema ?d point_shear) = point_shear (?d ! i)
              \<and> minX (findExtrema ?d point_shear) = point_x (?d ! i)"
    by blast
  then show ?thesis
    unfolding ev using ne by simp
qed

section \<open>Assembly of the stiffness matrix\<close>

lemma fold_add_at_length:
  "length (fold (\<lambda>i F. F[p i := F ! p i + v i]) is F) = length (F::real list)"
  by (induction "is" arbitrary: F) auto

lemma fold_add_at_nth:
  "c < length F \<Longrightarrow>
   fold (\<lambda>i F. F[p i := F ! p i + v i]) is F ! c
     = (F::real list) ! c + (\<Sum>i\<leftarrow>is. if p i = c then v i else 0)"
proof (induction "is" arbitrary: F)
  case Nil
  then show ?case by simp
next
  case (Cons i "is")
  have "fold (\<lambda>i F. F[p i := F ! p i + v i]) is (F[p i := F ! p i + v i]) ! c
      = F[p i := F ! p i + v i] ! c + (\<Sum>i\<leftarrow>is. if p i = c then v i else 0)"
    using Cons.prems by (intro Cons.IH) simp
  then show ?case using Cons.prems by (auto simp: nth_list_update)
qed

lemma fold_row_update:
  "r < length K \<Longrightarrow>
   fold (\<lambda>j K. K[r := (K ! r)[p j := K ! r ! p j + v j]]) js K
     = K[r := fold (\<lambda>j row. row[p j := row ! p j + v j]) js (K ! r)]"
proof (induction js arbitrary: K)
  case Nil
  then show ?case by simp
next
  case (Cons j js)
  let ?K1 = "K[r := (K ! r)[p j := K ! r ! p j + v j]]"
  have "fold (\<lambda>j K. K[r := (K ! r)[p j := K ! r ! p j + v j]]) js ?K1
      = ?K1[r := fold (\<lambda>j row. row[p j := row ! p j + v j]) js (?K1 ! r)]"
    using Cons.prems by (intro Cons.IH) simp
  then show ?case using Cons.prems by simp
qed

lemma fold_scatter:
  assumes "squareM n K" "\<forall>i \<in> set is. p i < n"
  shows "squareM n (fold (\<lambda>i K. fold (\<lambda>j K. K[p i := (K ! p i)[p j := K ! p i ! p j + v i j]]) js K) is K)
       \<and> (\<forall>r < n. \<forall>c < n.
            fold (\<lambda>i K. fold (\<lambda>j K. K[p i := (K ! p i)[p j := K ! p i ! p j + v i j]]) js K) is K ! r ! c
            = K ! r ! c + (\<Sum>i\<leftarrow>is. if p i = r then (\<Sum>j\<leftarrow>js. if p j = c then v i j else 0) else 0))"
  using assms
proof (induction "is" arbitrary: K)
  case Nil
  then show ?case by simp
next
  case (Cons i "is")
  let ?row = "fold (\<lambda>j row. row[p j := row ! p j + v i j]) js (K ! p i)"
  let ?K1 = "K[p i := ?row]"
  have pi: "p i < n" "p i < length K" using Cons.prems by (auto simp: squareM_def)
  have inner: "fold (\<lambda>j K. K[p i := (K ! p i)[p j := K ! p i ! p j + v i j]]) js K = ?K1"
    using fold_row_update [of "p i" K p "v i" js] pi by simp
  have sq1: "squareM n ?K1"
    using Cons.prems(1) pi by (auto simp: squareM_def nth_list_update fold_add_at_length)
  have e1: "\<And>r c. r < n \<Longrightarrow> c < n \<Longrightarrow>
      ?K1 ! r ! c = K ! r ! c + (if p i = r then (\<Sum>j\<leftarrow>js. if p j = c then v i j else 0) else 0)"
    using Cons.prems(1) pi by (auto simp: squareM_def nth_list_update fold_add_at_nth)
  from Cons.IH [OF sq1] Cons.prems(2)
  have IH: "squareM n (fold (\<lambda>i K. fold (\<lambda>j K. K[p i := (K ! p i)[p j := K ! p i ! p j + v i j]]) js K) is ?K1)"
    "\<And>r c. r < n \<Longrightarrow> c < n \<Longrightarrow> 
            fold (\<lambda>i K. fold (\<lambda>j K. K[p i := (K ! p i)[p j := K ! p i ! p j + v i j]]) js K) is ?K1 ! r ! c
            = ?K1 ! r ! c + (\<Sum>i\<leftarrow>is. if p i = r then (\<Sum>j\<leftarrow>js. if p j = c then v i j else 0) else 0)"
    by auto
  show ?case
    using IH(1) IH(2) e1 by (simp add: inner)
qed

lemma scatter_delta_sym:
  assumes "\<forall>i < m. \<forall>j < m. (k::nat \<Rightarrow> nat \<Rightarrow> real) i j = k j i"
  shows "(\<Sum>i\<leftarrow>[0..<m]. if p i = r then (\<Sum>j\<leftarrow>[0..<m]. if p j = c then k i j else 0) else 0)
       = (\<Sum>i\<leftarrow>[0..<m]. if p i = c then (\<Sum>j\<leftarrow>[0..<m]. if p j = (r::nat) then k i j else 0) else 0)"
proof -
  have "(\<Sum>i\<leftarrow>[0..<m]. if p i = r then (\<Sum>j\<leftarrow>[0..<m]. if p j = c then k i j else 0) else 0)
      = (\<Sum>i\<in>{0..<m}. \<Sum>j\<in>{0..<m}. if p i = r \<and> p j = c then k i j else 0)"
    unfolding interv_sum_list_conv_sum_set_nat
    by (intro sum.cong) auto
  also have "\<dots> = (\<Sum>j\<in>{0..<m}. \<Sum>i\<in>{0..<m}. if p i = r \<and> p j = c then k i j else 0)"
    by (rule sum.swap)
  also have "\<dots> = (\<Sum>j\<in>{0..<m}. \<Sum>i\<in>{0..<m}. if p j = c \<and> p i = r then k j i else 0)"
    using assms by (intro sum.cong) auto
  also have "\<dots> = (\<Sum>i\<leftarrow>[0..<m]. if p i = c then (\<Sum>j\<leftarrow>[0..<m]. if p j = r then k i j else 0) else 0)"
    unfolding interv_sum_list_conv_sum_set_nat
    by (intro sum.cong) auto
  finally show ?thesis .
qed

lemma addLocalStiffness_square_symmetric:
  assumes sq: "squareM n K" and sym: "symmetricM n K" and ksym: "symmetricM 4 kLocal"
    and dm: "\<forall>i < 4. dm ! i < n"
  shows "squareM n (addLocalStiffness kLocal dm K) \<and> symmetricM n (addLocalStiffness kLocal dm K)"
proof -
  have dm': "\<forall>i \<in> set [0..<4]. dm ! i < n" using dm by simp
  note sc = fold_scatter [OF sq dm', of "\<lambda>i j. kLocal ! i ! j" "[0..<4]", folded addLocalStiffness_def]
  have ks: "\<forall>i < 4. \<forall>j < 4. (\<lambda>i j. kLocal ! i ! j) i j = (\<lambda>i j. kLocal ! i ! j) j i"
    using ksym by (simp add: symmetricM_def)
  have "symmetricM n (addLocalStiffness kLocal dm K)"
    unfolding symmetricM_def
  proof (intro allI impI)
    fix r c assume rc: "r < n" "c < n"
    have "addLocalStiffness kLocal dm K ! r ! c = K ! r ! c
        + (\<Sum>i\<leftarrow>[0..<4]. if dm ! i = r then (\<Sum>j\<leftarrow>[0..<4]. if dm ! j = c then kLocal ! i ! j else 0) else 0)"
      using sc rc by blast
    moreover have "addLocalStiffness kLocal dm K ! c ! r = K ! c ! r
        + (\<Sum>i\<leftarrow>[0..<4]. if dm ! i = c then (\<Sum>j\<leftarrow>[0..<4]. if dm ! j = r then kLocal ! i ! j else 0) else 0)"
      using sc rc by blast
    moreover have "K ! r ! c = K ! c ! r" using sym rc by (simp add: symmetricM_def)
    ultimately show "addLocalStiffness kLocal dm K ! r ! c = addLocalStiffness kLocal dm K ! c ! r"
      using scatter_delta_sym [OF ks, of "\<lambda>i. dm ! i" r c] by simp
  qed
  with sc show ?thesis by blast
qed

lemma beamElementStiffness_symmetricM: "symmetricM 4 (beamElementStiffness E' I' L)"
  by (simp add: symmetricM_def beamElementStiffness_def Let_def all_less_4)

lemma dofMap_less: "e + 1 < m \<Longrightarrow> \<forall>i < 4. dofMap e ! i < m * 2"
  by (simp add: dofMap_def all_less_4)

lemma elementStep_K:
  assumes "squareM (m * 2) K" "symmetricM (m * 2) K" "e + 1 < m"
  shows "squareM (m * 2) (fst (elementStep inp nodes e (K, F)))
       \<and> symmetricM (m * 2) (fst (elementStep inp nodes e (K, F)))"
  using assms addLocalStiffness_square_symmetric [OF assms(1,2) beamElementStiffness_symmetricM dofMap_less [OF assms(3)]]
  by (simp add: elementStep_def Let_def)

lemma elements_K:
  assumes "squareM (m * 2) K" "symmetricM (m * 2) K" "k + 1 \<le> m"
  shows "squareM (m * 2) (fst (fold (elementStep inp nodes) [0..<k] (K, F)))
       \<and> symmetricM (m * 2) (fst (fold (elementStep inp nodes) [0..<k] (K, F)))"
  using assms(3)
proof (induction k)
  case 0
  then show ?case using assms by simp
next
  case (Suc k)
  obtain K1 F1 where st: "fold (elementStep inp nodes) [0..<k] (K, F) = (K1, F1)"
    by (cases "fold (elementStep inp nodes) [0..<k] (K, F)") auto
  from Suc have "squareM (m * 2) K1" "symmetricM (m * 2) K1" "k + 1 < m" by (auto simp: st)
  from elementStep_K [OF this] show ?case by (simp add: st)
qed

lemma zero_square_symmetric:
  "squareM n (replicate n (replicate n 0)) \<and> symmetricM n (replicate n (replicate n 0))"
  by (simp add: squareM_def symmetricM_def)

lemma stiffnessK_square_symmetric:
  "squareM (dofCount inp) (stiffnessK inp) \<and> symmetricM (dofCount inp) (stiffnessK inp)"
proof (cases "length (nodePositions inp)")
  case 0
  then show ?thesis
    by (simp add: stiffnessK_def assembleElements_def dofCount_def squareM_def symmetricM_def)
next
  case (Suc k)
  have "squareM (Suc k * 2) (replicate (Suc k * 2) (replicate (Suc k * 2) 0))"
    "symmetricM (Suc k * 2) (replicate (Suc k * 2) (replicate (Suc k * 2) 0))"
    using zero_square_symmetric [of "Suc k * 2"] by simp_all
  from elements_K [OF this, of k inp "nodePositions inp"] Suc
  show ?thesis
    by (simp add: stiffnessK_def assembleElements_def dofCount_def Let_def)
qed

section \<open>Assembly of the load vector\<close>

lemma fold_plus_sum_list:
  "fold (\<lambda>x s. s + f x) xs (a::real) = a + sum_list (map f xs)"
  by (induction xs arbitrary: a) auto

lemma udlForElement_covering: "udlForElement us x1 x2 = coveringIntensity us x1 x2"
  by (simp add: udlForElement_def coveringIntensity_def fold_plus_sum_list)

lemma eqForces_equivalent: "eqForces w L = equivalentNodalLoads w L"
  by (simp add: eqForces_def equivalentNodalLoads_def power2_eq_square)

lemma upt_4: "[0..<4] = [0, 1, 2, 3]"
  by (simp add: upt_rec)

lemma dofMap_select:
  "(\<Sum>i\<leftarrow>[0..<4]. if dofMap e ! i = d then eq ! i else 0)
     = (if 2 * e \<le> d \<and> d < 2 * e + 4 then (eq::real list) ! (d - 2 * e) else 0)"
proof (cases "2 * e \<le> d \<and> d < 2 * e + 4")
  case True
  then have "d = 2 * e \<or> d = 2 * e + 1 \<or> d = 2 * e + 2 \<or> d = 2 * e + 3" by arith
  then show ?thesis
    by (auto simp: upt_4 dofMap_def)
next
  case False
  then show ?thesis
    by (auto simp: upt_4 dofMap_def)
qed

lemma addEqForces_nth:
  "d < length F \<Longrightarrow>
   addEqForces eq (dofMap e) F ! d
     = F ! d + (if 2 * e \<le> d \<and> d < 2 * e + 4 then eq ! (d - 2 * e) else 0)"
  unfolding addEqForces_def
  using fold_add_at_nth [of d F "\<lambda>i. dofMap e ! i" "\<lambda>i. eq ! i" "[0..<4]"]
  by (simp add: dofMap_select)

lemma addEqForces_length: "length (addEqForces eq dm F) = length F"
  by (simp add: addEqForces_def fold_add_at_length)

lemma equivalentNodalLoads_zero: "i < 4 \<Longrightarrow> equivalentNodalLoads 0 L ! i = 0"
  by (auto simp: equivalentNodalLoads_def less_4_cases)

lemma nodePositions_gap:
  assumes "e + 1 < length (nodePositions inp)"
  shows "nodePositions inp ! e < nodePositions inp ! (e + 1)"
proof -
  have "sorted_wrt (<) (nodePositions inp)"
    by (simp add: nodePositions_def strict_uniqueSorted)
  then show ?thesis
    using assms by (simp add: sorted_wrt_nth_less)
qed

lemma elementStep_F:
  assumes "e + 1 < length (nodePositions inp)"
  shows "length (snd (elementStep inp (nodePositions inp) e (K, F))) = length F"
    and "d < length F \<Longrightarrow>
         snd (elementStep inp (nodePositions inp) e (K, F)) ! d = F ! d + elementLoad inp e d"
proof -
  let ?x1 = "nodePositions inp ! e" and ?x2 = "nodePositions inp ! (e + 1)"
  let ?w = "coveringIntensity (udls inp) ?x1 ?x2"
  have gap: "\<not> ?x2 - ?x1 \<le> 0" using nodePositions_gap [OF assms] by simp
  have F': "snd (elementStep inp (nodePositions inp) e (K, F))
      = (if ?w \<noteq> 0 then addEqForces (equivalentNodalLoads ?w (?x2 - ?x1)) (dofMap e) F else F)"
    using gap by (simp add: elementStep_def Let_def udlForElement_covering eqForces_equivalent)
  show "length (snd (elementStep inp (nodePositions inp) e (K, F))) = length F"
    by (simp add: F' addEqForces_length)
  show "snd (elementStep inp (nodePositions inp) e (K, F)) ! d = F ! d + elementLoad inp e d"
    if "d < length F"
  proof (cases "?w = 0")
    case True
    have "elementLoad inp e d = 0"
    proof (cases "2 * e \<le> d \<and> d < 2 * e + 4")
      case True
      then have "d - 2 * e < 4" by arith
      with \<open>?w = 0\<close> show ?thesis
        by (simp add: elementLoad_def Let_def equivalentNodalLoads_zero)
    next
      case False
      then show ?thesis by (auto simp: elementLoad_def Let_def)
    qed
    with True show ?thesis by (simp add: F')
  next
    case False
    then show ?thesis
      using that by (simp add: F' addEqForces_nth elementLoad_def Let_def)
  qed
qed

lemma elements_F:
  assumes "k + 1 \<le> length (nodePositions inp)"
  shows "length (snd (fold (elementStep inp (nodePositions inp)) [0..<k] (K, F))) = length F
       \<and> (\<forall>d < length F.
             snd (fold (elementStep inp (nodePositions inp)) [0..<k] (K, F)) ! d
               = F ! d + (\<Sum>e < k. elementLoad inp e d))"
  using assms
proof (induction k)
  case 0
  then show ?case by simp
next
  case (Suc k)
  obtain K1 F1 where st: "fold (elementStep inp (nodePositions inp)) [0..<k] (K, F) = (K1, F1)"
    by (cases "fold (elementStep inp (nodePositions inp)) [0..<k] (K, F)") auto
  from Suc have IH: "length F1 = length F"
    "\<And>d. d < length F \<Longrightarrow> F1 ! d = F ! d + (\<Sum>e < k. elementLoad inp e d)"
    and k: "k + 1 < length (nodePositions inp)"
    by (auto simp: st)
  from elementStep_F [OF k, where K = K1 and F = F1] IH
  show ?case by (simp add: st)
qed

lemma assembleElements_F:
  "length (snd (assembleElements inp)) = dofCount inp
   \<and> (\<forall>d < dofCount inp.
        snd (assembleElements inp) ! d
          = (\<Sum>e < length (nodePositions inp) - 1. elementLoad inp e d))"
proof (cases "length (nodePositions inp) = 0")
  case True
  then show ?thesis by (simp add: assembleElements_def dofCount_def)
next
  case False
  let ?n = "length (nodePositions inp) * 2"
  have k: "length (nodePositions inp) - 1 + 1 \<le> length (nodePositions inp)"
    using False by simp
  have z: "\<And>d. d < ?n \<Longrightarrow> replicate ?n (0::real) ! d = 0"
    by (rule nth_replicate)
  from elements_F [OF k, of "replicate ?n (replicate ?n 0)" "replicate ?n 0"] z
  show ?thesis
    by (simp add: assembleElements_def dofCount_def Let_def del: replicate.simps)
qed

section \<open>The assembled system: symmetry and equivalent nodal loads\<close>

lemma twoLoadBeam_nodes: "nodePositions twoLoadBeam = [0, 1, 3, 4]"
  by (simp add: nodePositions_def twoLoadBeam_def uniqueSorted_def newSet_def)

text \<open>
  Claim C8. The assembled global stiffness matrix \<open>K\<close> is a square matrix over the
  DOFs, two per node, and it is symmetric: \<open>K[i][j] = K[j][i]\<close> for all DOF
  indices \<open>i\<close>, \<open>j\<close>.
\<close>

theorem stiffness_matrix_symmetric:
  "length (model_K (assembleBeamModel inp)) = 2 * length (model_nodePositions (assembleBeamModel inp))
   \<and> (\<forall>i < length (model_K (assembleBeamModel inp)).
         length (model_K (assembleBeamModel inp) ! i) = length (model_K (assembleBeamModel inp))
         \<and> (\<forall>j < length (model_K (assembleBeamModel inp)).
               model_K (assembleBeamModel inp) ! i ! j = model_K (assembleBeamModel inp) ! j ! i))"
  using stiffnessK_square_symmetric [of inp]
  by (simp add: assembleBeamModel_def squareM_def symmetricM_def dofCount_def)

theorem stiffness_matrix_symmetric_witness:
  "(1::nat) < length (model_K (assembleBeamModel twoLoadBeam))
   \<and> 2 < length (model_K (assembleBeamModel twoLoadBeam))
   \<and> model_K (assembleBeamModel twoLoadBeam) ! 1 ! 2 = model_K (assembleBeamModel twoLoadBeam) ! 2 ! 1"
proof -
  have len: "length (model_K (assembleBeamModel twoLoadBeam)) = 8"
    using stiffness_matrix_symmetric [of twoLoadBeam]
    by (simp add: assembleBeamModel_def twoLoadBeam_nodes)
  show ?thesis
    using stiffness_matrix_symmetric [of twoLoadBeam] unfolding len by simp
qed

lemma udlForElement_skip:
  assumes "\<not> (udl_start l \<le> x1 \<and> x2 \<le> udl_end l)"
  shows "udlForElement (us1 @ l # us2) x1 x2 = udlForElement (us1 @ us2) x1 x2"
  using assms by (auto simp: udlForElement_def)

lemma lessThan_3: "{..<3::nat} = {0, 1, 2}"
  by auto

text \<open>
  Claim C5. Processing element \<open>e\<close> adds to the load vector, at the element's four
  DOFs \<open>2e, \<dots>, 2e + 3\<close>, the equivalent nodal loads
  \<open>[wL/2, wL\<^sup>2/12, wL/2, -wL\<^sup>2/12]\<close> and leaves every other entry alone, where
  \<open>L\<close> is the element length and \<open>w\<close> is the sum of the intensities of exactly those
  distributed loads whose interval contains the whole element (\<open>elementLoad\<close>). The
  load vector at the end of the element loop is, at every DOF, the sum of these
  contributions over all elements. The intensity the code computes for an element is
  this sum, and a load whose interval does not contain the whole element, such as one
  that overlaps it in part, does not change it.
\<close>

theorem distributed_load_equivalent_nodal_loads:
  "(d < dofCount inp \<longrightarrow>
      snd (assembleElements inp) ! d = (\<Sum>e < length (nodePositions inp) - 1. elementLoad inp e d))
   \<and> (e + 1 < length (nodePositions inp) \<and> d < length F \<longrightarrow>
        snd (elementStep inp (nodePositions inp) e (K, F)) ! d = F ! d + elementLoad inp e d)
   \<and> udlForElement us x1 x2 = coveringIntensity us x1 x2
   \<and> (\<not> (udl_start l \<le> x1 \<and> x2 \<le> udl_end l) \<longrightarrow>
        udlForElement (us1 @ l # us2) x1 x2 = udlForElement (us1 @ us2) x1 x2)"
  using assembleElements_F [of inp] elementStep_F(2) [of e inp d F K] udlForElement_skip [of l x1 x2 us1 us2]
  by (simp add: udlForElement_covering)

theorem distributed_load_equivalent_nodal_loads_witness:
  "(2::nat) < dofCount twoLoadBeam
   \<and> snd (assembleElements twoLoadBeam) ! 2 = 21
   \<and> (0::nat) + 1 < length (nodePositions twoLoadBeam) \<and> (2::nat) < length [0, 0, 0, 0, 0, 0, 0, 0 :: real]
   \<and> snd (elementStep twoLoadBeam (nodePositions twoLoadBeam) 0 ([], [0, 0, 0, 0, 0, 0, 0, 0])) ! 2 = 3
   \<and> \<not> (udl_start \<lparr>udl_start = 2, udl_end = 4, udl_intensity = 5\<rparr> \<le> 1
        \<and> 3 \<le> udl_end \<lparr>udl_start = 2, udl_end = 4, udl_intensity = 5\<rparr>)
   \<and> udlForElement [\<lparr>udl_start = 0, udl_end = 4, udl_intensity = 6\<rparr>,
                     \<lparr>udl_start = 2, udl_end = 4, udl_intensity = 5\<rparr>] 1 3 = 6"
proof -
  have dc: "dofCount twoLoadBeam = 8" by (simp add: dofCount_def twoLoadBeam_nodes)
  have u: "udls twoLoadBeam = [\<lparr>udl_start = 0, udl_end = 4, udl_intensity = 6\<rparr>,
              \<lparr>udl_start = 1, udl_end = 4, udl_intensity = 12\<rparr>]"
    by (simp add: twoLoadBeam_def)
  have e0: "elementLoad twoLoadBeam 0 2 = 3"
    by (simp add: elementLoad_def twoLoadBeam_nodes coveringIntensity_def equivalentNodalLoads_def u)
  have e1: "elementLoad twoLoadBeam (Suc 0) 2 = 18"
    by (simp add: elementLoad_def twoLoadBeam_nodes coveringIntensity_def equivalentNodalLoads_def u)
  have e2: "elementLoad twoLoadBeam (Suc (Suc 0)) 2 = 0"
    by (simp add: elementLoad_def twoLoadBeam_nodes)
  have one: "udlForElement [\<lparr>udl_start = 0, udl_end = 4, udl_intensity = 6\<rparr>] 1 3 = 6"
    by (simp add: udlForElement_def)
  show ?thesis
    using distributed_load_equivalent_nodal_loads [of 2 twoLoadBeam 0 "[0, 0, 0, 0, 0, 0, 0, 0]" "[]" "[]" 1 3
        "\<lparr>udl_start = 2, udl_end = 4, udl_intensity = 5\<rparr>"
        "[\<lparr>udl_start = 0, udl_end = 4, udl_intensity = 6\<rparr>]" "[]"]
    by (simp add: dc twoLoadBeam_nodes lessThan_3 e0 e1 e2 one)
qed

section \<open>The linear solver: what each iteration computes\<close>

lemma fold_max_index:
  fixes f :: "nat \<Rightarrow> real"
  shows "(fold (\<lambda>k m. if f k > f m then k else m) [lo..<hi] m0 = m0
          \<or> (lo \<le> fold (\<lambda>k m. if f k > f m then k else m) [lo..<hi] m0
              \<and> fold (\<lambda>k m. if f k > f m then k else m) [lo..<hi] m0 < hi))
       \<and> f m0 \<le> f (fold (\<lambda>k m. if f k > f m then k else m) [lo..<hi] m0)
       \<and> (\<forall>k. lo \<le> k \<and> k < hi \<longrightarrow> f k \<le> f (fold (\<lambda>k m. if f k > f m then k else m) [lo..<hi] m0))"
proof (induction hi)
  case 0
  then show ?case by simp
next
  case (Suc hi)
  show ?case
  proof (cases "lo \<le> hi")
    case True
    let ?m = "fold (\<lambda>k m. if f k > f m then k else m) [lo..<hi] m0"
    have step: "fold (\<lambda>k m. if f k > f m then k else m) [lo..<Suc hi] m0
        = (if f hi > f ?m then hi else ?m)"
      using True by simp
    from Suc.IH have IH: "?m = m0 \<or> (lo \<le> ?m \<and> ?m < hi)" "f m0 \<le> f ?m"
      "\<And>k. lo \<le> k \<Longrightarrow> k < hi \<Longrightarrow> f k \<le> f ?m"
      by auto
    show ?thesis
    proof (cases "f hi > f ?m")
      case gt: True
      have "\<And>k. lo \<le> k \<Longrightarrow> k < Suc hi \<Longrightarrow> f k \<le> f hi"
      proof -
        fix k assume "lo \<le> k" "k < Suc hi"
        then consider "k < hi" | "k = hi" by fastforce
        then show "f k \<le> f hi"
          using IH(3) [OF \<open>lo \<le> k\<close>] gt by cases auto
      qed
      with gt IH(2) True show ?thesis unfolding step by auto
    next
      case le: False
      have "\<And>k. lo \<le> k \<Longrightarrow> k < Suc hi \<Longrightarrow> f k \<le> f ?m"
      proof -
        fix k assume "lo \<le> k" "k < Suc hi"
        then consider "k < hi" | "k = hi" by fastforce
        then show "f k \<le> f ?m"
          using IH(3) [OF \<open>lo \<le> k\<close>] le by cases auto
      qed
      with le IH(1,2) show ?thesis unfolding step by auto
    qed
  next
    case False
    then show ?thesis by simp
  qed
qed

lemma findMaxRow_spec:
  assumes "i < n"
  shows "i \<le> findMaxRow a n i \<and> findMaxRow a n i < n
       \<and> (\<forall>k. i \<le> k \<and> k < n \<longrightarrow> \<bar>a ! k ! i\<bar> \<le> \<bar>a ! findMaxRow a n i ! i\<bar>)"
proof -
  let ?f = "\<lambda>k. \<bar>a ! k ! i\<bar>"
  note fm = fold_max_index [of ?f "i + 1" n i, folded findMaxRow_def]
  have "\<And>k. i \<le> k \<Longrightarrow> k < n \<Longrightarrow> ?f k \<le> ?f (findMaxRow a n i)"
  proof -
    fix k assume "i \<le> k" "k < n"
    then consider "k = i" | "i + 1 \<le> k" by fastforce
    then show "?f k \<le> ?f (findMaxRow a n i)"
      using fm \<open>k < n\<close> by cases auto
  qed
  moreover have "i \<le> findMaxRow a n i \<and> findMaxRow a n i < n"
    using fm assms by auto
  ultimately show ?thesis by blast
qed

lemma fold_row_map:
  "r < length K \<Longrightarrow>
   fold (\<lambda>j K. K[r := (K ! r)[j := g j (K ! r ! j)]]) js K
     = K[r := fold (\<lambda>j row. row[j := g j (row ! j)]) js (K ! r)]"
proof (induction js arbitrary: K)
  case Nil
  then show ?case by simp
next
  case (Cons j js)
  let ?K1 = "K[r := (K ! r)[j := g j (K ! r ! j)]]"
  have "fold (\<lambda>j K. K[r := (K ! r)[j := g j (K ! r ! j)]]) js ?K1
      = ?K1[r := fold (\<lambda>j row. row[j := g j (row ! j)]) js (?K1 ! r)]"
    using Cons.prems by (intro Cons.IH) simp
  then show ?case using Cons.prems by simp
qed

lemma fold_map_range_length:
  "length (fold (\<lambda>j row. row[j := g j (row ! j)]) js row) = length row"
  by (induction js arbitrary: row) auto

lemma fold_map_range_nth:
  "c < length row \<Longrightarrow>
   fold (\<lambda>j row. row[j := g j (row ! j)]) [lo..<hi] row ! c
     = (if lo \<le> c \<and> c < hi then g c (row ! c) else row ! c)"
proof (induction hi arbitrary: c)
  case 0
  then show ?case by simp
next
  case (Suc hi)
  show ?case
  proof (cases "lo \<le> hi")
    case True
    consider "c < hi" | "c = hi" | "hi < c" by fastforce
    then show ?thesis
      using Suc.IH [of c] Suc.IH [of hi] Suc.prems True
      by cases (auto simp: nth_list_update fold_map_range_length)
  next
    case False
    then show ?thesis by auto
  qed
qed

lemma fold_fixed_pivot_row:
  assumes "k \<noteq> i"
  shows "a ! i = ri \<Longrightarrow> k < length a \<Longrightarrow>
         fold (\<lambda>j a. a[k := (a ! k)[j := a ! k ! j - f * a ! i ! j]]) js a
       = fold (\<lambda>j a. a[k := (a ! k)[j := a ! k ! j - f * ri ! j]]) js a"
proof (induction js arbitrary: a)
  case Nil
  then show ?case by simp
next
  case (Cons j js)
  let ?a1 = "a[k := (a ! k)[j := a ! k ! j - f * ri ! j]]"
  have "?a1 ! i = ri" "k < length ?a1" using Cons.prems assms by simp_all
  from Cons.IH [OF this] Cons.prems show ?case by simp
qed

lemma wfSys_nth_length: "wfSys n a b \<Longrightarrow> r < n \<Longrightarrow> length (a ! r) = n"
  by (simp add: wfSys_def squareM_def)

lemma swapRows_spec:
  assumes "wfSys n a b" "i < n" "m < n"
  shows "wfSys n (fst (swapRows i m (a, b))) (snd (swapRows i m (a, b)))"
    and "\<And>r. r < n \<Longrightarrow> fst (swapRows i m (a, b)) ! r = (if r = i then a ! m else if r = m then a ! i else a ! r)"
    and "\<And>r. r < n \<Longrightarrow> snd (swapRows i m (a, b)) ! r = (if r = i then b ! m else if r = m then b ! i else b ! r)"
  using assms
  by (auto simp: swapRows_def wfSys_def squareM_def nth_list_update)

lemma normalizeRow_spec:
  assumes "wfSys n a b" "i < n"
  shows "wfSys n (fst (normalizeRow n i p (a, b))) (snd (normalizeRow n i p (a, b)))"
    and "\<And>r c. r < n \<Longrightarrow> c < n \<Longrightarrow>
           fst (normalizeRow n i p (a, b)) ! r ! c = (if r = i \<and> i \<le> c then a ! r ! c / p else a ! r ! c)"
    and "\<And>r. r < n \<Longrightarrow> snd (normalizeRow n i p (a, b)) ! r = (if r = i then b ! r / p else b ! r)"
proof -
  have ia: "i < length a" and la: "length a = n" and lb: "length b = n"
    and lr: "\<And>r. r < n \<Longrightarrow> length (a ! r) = n"
    using assms by (auto simp: wfSys_def squareM_def)
  have a2: "fst (normalizeRow n i p (a, b))
      = a[i := fold (\<lambda>j row. row[j := row ! j / p]) [i..<n] (a ! i)]"
    using fold_row_map [OF ia, of "\<lambda>j v. v / p" "[i..<n]"] by (simp add: normalizeRow_def)
  have b2: "snd (normalizeRow n i p (a, b)) = b[i := b ! i / p]"
    by (simp add: normalizeRow_def)
  show "wfSys n (fst (normalizeRow n i p (a, b))) (snd (normalizeRow n i p (a, b)))"
    unfolding a2 b2 using la lb lr ia
    by (auto simp: wfSys_def squareM_def nth_list_update fold_map_range_length [of "\<lambda>j v. v / p"])
  show "fst (normalizeRow n i p (a, b)) ! r ! c = (if r = i \<and> i \<le> c then a ! r ! c / p else a ! r ! c)"
    if "r < n" "c < n" for r c
  proof -
    have "fold (\<lambda>j row. row[j := row ! j / p]) [i..<n] (a ! i) ! c
        = (if i \<le> c \<and> c < n then a ! i ! c / p else a ! i ! c)"
      using fold_map_range_nth [of c "a ! i" "\<lambda>j v. v / p" i n] lr [of i] assms(2) that
      by simp
    then show ?thesis
      unfolding a2 using that la ia by (auto simp: nth_list_update)
  qed
  show "snd (normalizeRow n i p (a, b)) ! r = (if r = i then b ! r / p else b ! r)" if "r < n" for r
    unfolding b2 using that lb by (auto simp: nth_list_update)
qed

lemma eliminateRow_spec:
  assumes "wfSys n a b" "i < n" "k < n" "k \<noteq> i"
  shows "wfSys n (fst (eliminateRow n i k (a, b))) (snd (eliminateRow n i k (a, b)))"
    and "\<And>r c. r < n \<Longrightarrow> c < n \<Longrightarrow>
           fst (eliminateRow n i k (a, b)) ! r ! c
             = (if r = k \<and> i \<le> c then a ! r ! c - a ! k ! i * a ! i ! c else a ! r ! c)"
    and "\<And>r. r < n \<Longrightarrow>
           snd (eliminateRow n i k (a, b)) ! r = (if r = k then b ! r - a ! k ! i * b ! i else b ! r)"
proof -
  have ka: "k < length a" and la: "length a = n" and lb: "length b = n"
    and lr: "\<And>r. r < n \<Longrightarrow> length (a ! r) = n"
    using assms by (auto simp: wfSys_def squareM_def)
  let ?f = "a ! k ! i"
  have "fold (\<lambda>j a. a[k := (a ! k)[j := a ! k ! j - ?f * a ! i ! j]]) [i..<n] a
      = fold (\<lambda>j a. a[k := (a ! k)[j := a ! k ! j - ?f * (a ! i) ! j]]) [i..<n] a"
    by simp
  have a3: "fst (eliminateRow n i k (a, b))
      = a[k := fold (\<lambda>j row. row[j := row ! j - ?f * a ! i ! j]) [i..<n] (a ! k)]"
    using fold_fixed_pivot_row [OF assms(4) refl ka, of ?f "[i..<n]"]
      fold_row_map [OF ka, of "\<lambda>j v. v - ?f * a ! i ! j" "[i..<n]"]
    by (simp add: eliminateRow_def Let_def)
  have b3: "snd (eliminateRow n i k (a, b)) = b[k := b ! k - ?f * b ! i]"
    by (simp add: eliminateRow_def Let_def)
  show "wfSys n (fst (eliminateRow n i k (a, b))) (snd (eliminateRow n i k (a, b)))"
    unfolding a3 b3 using la lb lr ka
    by (auto simp: wfSys_def squareM_def nth_list_update
          fold_map_range_length [of "\<lambda>j v. v - ?f * a ! i ! j"])
  show "fst (eliminateRow n i k (a, b)) ! r ! c
             = (if r = k \<and> i \<le> c then a ! r ! c - a ! k ! i * a ! i ! c else a ! r ! c)"
    if "r < n" "c < n" for r c
  proof -
    have "fold (\<lambda>j row. row[j := row ! j - ?f * a ! i ! j]) [i..<n] (a ! k) ! c
        = (if i \<le> c \<and> c < n then a ! k ! c - ?f * a ! i ! c else a ! k ! c)"
      using fold_map_range_nth [of c "a ! k" "\<lambda>j v. v - ?f * a ! i ! j" i n] lr [of k] assms(3) that
      by simp
    then show ?thesis
      unfolding a3 using that la ka by (auto simp: nth_list_update)
  qed
  show "snd (eliminateRow n i k (a, b)) ! r = (if r = k then b ! r - a ! k ! i * b ! i else b ! r)"
    if "r < n" for r
    unfolding b3 using that lb by (auto simp: nth_list_update)
qed

lemma eliminate_prefix:
  assumes "wfSys n a b" "i < n" "m \<le> n"
  shows "wfSys n (fst (fold (\<lambda>k ab. if k = i then ab else eliminateRow n i k ab) [0..<m] (a, b)))
               (snd (fold (\<lambda>k ab. if k = i then ab else eliminateRow n i k ab) [0..<m] (a, b)))
       \<and> (\<forall>r < n. \<forall>c < n.
            fst (fold (\<lambda>k ab. if k = i then ab else eliminateRow n i k ab) [0..<m] (a, b)) ! r ! c
              = (if r < m \<and> r \<noteq> i \<and> i \<le> c then a ! r ! c - a ! r ! i * a ! i ! c else a ! r ! c))
       \<and> (\<forall>r < n.
            snd (fold (\<lambda>k ab. if k = i then ab else eliminateRow n i k ab) [0..<m] (a, b)) ! r
              = (if r < m \<and> r \<noteq> i then b ! r - a ! r ! i * b ! i else b ! r))"
  using assms(3)
proof (induction m)
  case 0
  then show ?case using assms by simp
next
  case (Suc m)
  obtain a' b' where st:
    "fold (\<lambda>k ab. if k = i then ab else eliminateRow n i k ab) [0..<m] (a, b) = (a', b')"
    by (cases "fold (\<lambda>k ab. if k = i then ab else eliminateRow n i k ab) [0..<m] (a, b)") auto
  from Suc have m: "m < n" by simp
  from Suc.IH m have IH: "wfSys n a' b'"
    "\<And>r c. r < n \<Longrightarrow> c < n \<Longrightarrow> a' ! r ! c
        = (if r < m \<and> r \<noteq> i \<and> i \<le> c then a ! r ! c - a ! r ! i * a ! i ! c else a ! r ! c)"
    "\<And>r. r < n \<Longrightarrow> b' ! r = (if r < m \<and> r \<noteq> i then b ! r - a ! r ! i * b ! i else b ! r)"
    by (auto simp: st)
  show ?case
  proof (cases "m = i")
    case True
    have "fold (\<lambda>k ab. if k = i then ab else eliminateRow n i k ab) [0..<Suc m] (a, b) = (a', b')"
      using True st by auto
    then show ?thesis using IH True by (auto simp: less_Suc_eq)
  next
    case False
    have step: "fold (\<lambda>k ab. if k = i then ab else eliminateRow n i k ab) [0..<Suc m] (a, b)
        = eliminateRow n i m (a', b')"
      using False by (simp add: st)
    note sp = eliminateRow_spec [OF IH(1) assms(2) m False]
    have "a' ! m ! i = a ! m ! i" using IH(2) [OF m assms(2)] by simp
    moreover have "\<And>c. c < n \<Longrightarrow> a' ! i ! c = a ! i ! c" using IH(2) [OF assms(2)] by simp
    moreover have "b' ! i = b ! i" using IH(3) [OF assms(2)] by simp
    moreover have "\<And>c. c < n \<Longrightarrow> a' ! m ! c = a ! m ! c" using IH(2) [OF m] by simp
    moreover have "b' ! m = b ! m" using IH(3) [OF m] by simp
    ultimately show ?thesis
      unfolding step using sp IH(2,3) False by (auto simp: less_Suc_eq)
  qed
qed

lemma eliminate_spec:
  assumes "wfSys n a b" "i < n"
  shows "wfSys n (fst (eliminate n i (a, b))) (snd (eliminate n i (a, b)))"
    and "\<And>r c. r < n \<Longrightarrow> c < n \<Longrightarrow>
           fst (eliminate n i (a, b)) ! r ! c
             = (if r \<noteq> i \<and> i \<le> c then a ! r ! c - a ! r ! i * a ! i ! c else a ! r ! c)"
    and "\<And>r. r < n \<Longrightarrow>
           snd (eliminate n i (a, b)) ! r = (if r \<noteq> i then b ! r - a ! r ! i * b ! i else b ! r)"
  using eliminate_prefix [OF assms order_refl] by (auto simp: eliminate_def)

section \<open>The linear solver: row operations keep the solutions\<close>

lemma rowEq_cong:
  assumes "\<And>c. c < n \<Longrightarrow> a' ! k' ! c = a ! k ! c" "b' ! k' = b ! k"
  shows "rowEq n a' b' x t k' \<longleftrightarrow> rowEq n a b x t k"
  using assms by (simp add: rowEq_def)

lemma swap_rowEq:
  assumes i: "i < n" and m: "m < n"
    and a1: "\<And>r. r < n \<Longrightarrow> a1 ! r = (if r = i then a ! m else if r = m then a ! i else a ! r)"
    and b1: "\<And>r. r < n \<Longrightarrow> b1 ! r = (if r = i then b ! m else if r = m then b ! i else b ! r)"
  shows "(\<forall>k<n. rowEq n a1 b1 x t k) \<longleftrightarrow> (\<forall>k<n. rowEq n a b x t k)"
proof -
  have ei: "rowEq n a1 b1 x t i \<longleftrightarrow> rowEq n a b x t m"
    using a1 [OF i] b1 [OF i] by (simp add: rowEq_def)
  have em: "rowEq n a1 b1 x t m \<longleftrightarrow> rowEq n a b x t i"
    using a1 [OF m] b1 [OF m] by (simp add: rowEq_def)
  have eo: "\<And>r. r < n \<Longrightarrow> r \<noteq> i \<Longrightarrow> r \<noteq> m \<Longrightarrow> rowEq n a1 b1 x t r \<longleftrightarrow> rowEq n a b x t r"
    using a1 b1 by (simp add: rowEq_def)
  show ?thesis
  proof
    assume L: "\<forall>k<n. rowEq n a1 b1 x t k"
    show "\<forall>k<n. rowEq n a b x t k"
    proof (intro allI impI)
      fix k assume k: "k < n"
      consider "k = i" | "k = m" | "k \<noteq> i" "k \<noteq> m" by blast
      then show "rowEq n a b x t k"
      proof cases
        case 1 then show ?thesis using L m em by blast
      next
        case 2 then show ?thesis using L i ei by blast
      next
        case 3 then show ?thesis using L k eo by blast
      qed
    qed
  next
    assume R: "\<forall>k<n. rowEq n a b x t k"
    show "\<forall>k<n. rowEq n a1 b1 x t k"
    proof (intro allI impI)
      fix k assume k: "k < n"
      consider "k = i" | "k = m" | "k \<noteq> i" "k \<noteq> m" by blast
      then show "rowEq n a1 b1 x t k"
      proof cases
        case 1 then show ?thesis using R m ei by blast
      next
        case 2 then show ?thesis using R i em by blast
      next
        case 3 then show ?thesis using R k eo by blast
      qed
    qed
  qed
qed

lemma scale_rowEq:
  assumes p: "p \<noteq> 0"
    and a2: "\<And>c. c < n \<Longrightarrow> a2 ! i ! c = a1 ! i ! c / p"
    and b2: "b2 ! i = b1 ! i / p"
  shows "rowEq n a2 b2 x t i \<longleftrightarrow> rowEq n a1 b1 x t i"
proof -
  have "(\<Sum>j<n. a2 ! i ! j * x j) = (\<Sum>j<n. a1 ! i ! j * x j / p)"
    using a2 by (intro sum.cong) auto
  then have "(\<Sum>j<n. a2 ! i ! j * x j) = (\<Sum>j<n. a1 ! i ! j * x j) / p"
    by (simp add: sum_divide_distrib)
  then show ?thesis
    using p by (simp add: rowEq_def b2 field_simps)
qed

lemma elim_rowEq:
  assumes a3: "\<And>c. c < n \<Longrightarrow> a3 ! r ! c = a2 ! r ! c - f * a2 ! i ! c"
    and b3: "b3 ! r = b2 ! r - f * b2 ! i"
    and pivot: "rowEq n a2 b2 x t i"
  shows "rowEq n a3 b3 x t r \<longleftrightarrow> rowEq n a2 b2 x t r"
proof -
  have "(\<Sum>j<n. a3 ! r ! j * x j) = (\<Sum>j<n. a2 ! r ! j * x j - f * (a2 ! i ! j * x j))"
  proof (rule sum.cong)
    fix j assume "j \<in> {..<n}"
    then have "a3 ! r ! j = a2 ! r ! j - f * a2 ! i ! j" by (simp add: a3)
    then have "a3 ! r ! j * x j = (a2 ! r ! j - f * a2 ! i ! j) * x j" by (rule arg_cong)
    also have "\<dots> = a2 ! r ! j * x j - f * (a2 ! i ! j * x j)" by (simp add: algebra_simps)
    finally show "a3 ! r ! j * x j = a2 ! r ! j * x j - f * (a2 ! i ! j * x j)" .
  qed simp
  then have "(\<Sum>j<n. a3 ! r ! j * x j) = (\<Sum>j<n. a2 ! r ! j * x j) - f * (\<Sum>j<n. a2 ! i ! j * x j)"
    by (simp add: sum_subtractf sum_distrib_left)
  then show ?thesis
    using pivot by (simp add: rowEq_def b3 algebra_simps)
qed

lemma nonsingular_fun:
  assumes "nonsingular A" "\<forall>k < length A. (\<Sum>j < length A. A ! k ! j * x j) = 0" "j < length A"
  shows "x j = (0::real)"
proof -
  let ?xs = "map x [0..<length A]"
  have nth: "\<And>j. j < length A \<Longrightarrow> ?xs ! j = x j" by simp
  have "\<forall>k < length A. (\<Sum>j < length A. A ! k ! j * ?xs ! j) = 0"
  proof (intro allI impI)
    fix k assume "k < length A"
    have "(\<Sum>j < length A. A ! k ! j * ?xs ! j) = (\<Sum>j < length A. A ! k ! j * x j)"
      by (rule sum.cong) (simp_all add: nth)
    then show "(\<Sum>j < length A. A ! k ! j * ?xs ! j) = 0"
      using assms(2) \<open>k < length A\<close> by simp
  qed
  moreover have "length ?xs = length A" by simp
  ultimately have "?xs ! j = 0"
    using assms(1,3) unfolding nonsingular_def by blast
  then show ?thesis using assms(3) by simp
qed

lemma columnStep_inv:
  assumes wf: "wfSys n a b" and i: "i < n" and red: "reducedUpTo n i a"
    and piv: "a ! findMaxRow a n i ! i \<noteq> 0"
  shows "wfSys n (fst (columnStep n i (a, b))) (snd (columnStep n i (a, b)))"
    and "reducedUpTo n (Suc i) (fst (columnStep n i (a, b)))"
    and "(\<forall>k<n. rowEq n (fst (columnStep n i (a, b))) (snd (columnStep n i (a, b))) x t k)
           \<longleftrightarrow> (\<forall>k<n. rowEq n a b x t k)"
proof -
  let ?m = "findMaxRow a n i"
  have m: "i \<le> ?m" "?m < n" using findMaxRow_spec [OF i, of a] by auto
  obtain a1 b1 where s1: "swapRows i ?m (a, b) = (a1, b1)"
    by (cases "swapRows i ?m (a, b)") auto
  have wf1: "wfSys n a1 b1"
    and a1: "\<And>r. r < n \<Longrightarrow> a1 ! r = (if r = i then a ! ?m else if r = ?m then a ! i else a ! r)"
    and b1: "\<And>r. r < n \<Longrightarrow> b1 ! r = (if r = i then b ! ?m else if r = ?m then b ! i else b ! r)"
    using swapRows_spec [OF wf i m(2)] by (simp_all add: s1)
  have red0: "\<And>r c. r < n \<Longrightarrow> c < i \<Longrightarrow> a ! r ! c = (if r = c then 1 else 0)"
    using red by (simp add: reducedUpTo_def)
  have red1: "\<And>r c. r < n \<Longrightarrow> c < i \<Longrightarrow> a1 ! r ! c = (if r = c then 1 else 0)"
  proof -
    fix r c assume rc: "r < n" "c < i"
    consider "r = i" | "r = ?m" "r \<noteq> i" | "r \<noteq> i" "r \<noteq> ?m" by blast
    then show "a1 ! r ! c = (if r = c then 1 else 0)"
    proof cases
      case 1
      then show ?thesis using a1 [OF rc(1)] red0 [OF m(2) rc(2)] rc(2) m(1) by simp
    next
      case 2
      then show ?thesis using a1 [OF rc(1)] red0 [OF i rc(2)] rc(2) m(1) by simp
    next
      case 3
      then show ?thesis using a1 [OF rc(1)] red0 [OF rc] by simp
    qed
  qed
  let ?p = "a1 ! i ! i"
  have p: "?p \<noteq> 0" using a1 [OF i] piv by simp
  have pv: "pivotOf a1 i = ?p" using p by (simp add: pivotOf_def)
  obtain a2 b2 where s2: "normalizeRow n i ?p (a1, b1) = (a2, b2)"
    by (cases "normalizeRow n i ?p (a1, b1)") auto
  have wf2: "wfSys n a2 b2"
    and a2: "\<And>r c. r < n \<Longrightarrow> c < n \<Longrightarrow> a2 ! r ! c = (if r = i \<and> i \<le> c then a1 ! r ! c / ?p else a1 ! r ! c)"
    and b2: "\<And>r. r < n \<Longrightarrow> b2 ! r = (if r = i then b1 ! r / ?p else b1 ! r)"
    using normalizeRow_spec [OF wf1 i, where p = ?p] by (simp_all add: s2)
  have a2i: "\<And>c. c < n \<Longrightarrow> a2 ! i ! c = a1 ! i ! c / ?p"
  proof -
    fix c assume c: "c < n"
    show "a2 ! i ! c = a1 ! i ! c / ?p"
    proof (cases "i \<le> c")
      case True
      then show ?thesis using a2 [OF i c] by simp
    next
      case False
      then have "a1 ! i ! c = 0" using red1 [OF i, of c] by simp
      then show ?thesis using a2 [OF i c] False by simp
    qed
  qed
  have a2o: "\<And>r c. r < n \<Longrightarrow> c < n \<Longrightarrow> r \<noteq> i \<Longrightarrow> a2 ! r ! c = a1 ! r ! c"
    using a2 by simp
  have b2i: "b2 ! i = b1 ! i / ?p" using b2 [OF i] by simp
  have b2o: "\<And>r. r < n \<Longrightarrow> r \<noteq> i \<Longrightarrow> b2 ! r = b1 ! r" using b2 by simp
  have cs: "columnStep n i (a, b) = eliminate n i (a2, b2)"
    by (simp add: columnStep_def Let_def s1 pv s2)
  obtain a3 b3 where s3: "eliminate n i (a2, b2) = (a3, b3)"
    by (cases "eliminate n i (a2, b2)") auto
  have wf3: "wfSys n a3 b3"
    and a3: "\<And>r c. r < n \<Longrightarrow> c < n \<Longrightarrow>
           a3 ! r ! c = (if r \<noteq> i \<and> i \<le> c then a2 ! r ! c - a2 ! r ! i * a2 ! i ! c else a2 ! r ! c)"
    and b3: "\<And>r. r < n \<Longrightarrow> b3 ! r = (if r \<noteq> i then b2 ! r - a2 ! r ! i * b2 ! i else b2 ! r)"
    using eliminate_spec [OF wf2 i] by (simp_all add: s3)
  have a3o: "\<And>r c. r < n \<Longrightarrow> c < n \<Longrightarrow> r \<noteq> i \<Longrightarrow> a3 ! r ! c = a2 ! r ! c - a2 ! r ! i * a2 ! i ! c"
  proof -
    fix r c assume rc: "r < n" "c < n" "r \<noteq> i"
    show "a3 ! r ! c = a2 ! r ! c - a2 ! r ! i * a2 ! i ! c"
    proof (cases "i \<le> c")
      case True
      then show ?thesis using a3 [OF rc(1,2)] rc(3) by simp
    next
      case False
      then have "a1 ! i ! c = 0" using red1 [OF i, of c] by simp
      then have "a2 ! i ! c = 0" using a2i [OF rc(2)] by simp
      then show ?thesis using a3 [OF rc(1,2)] False by simp
    qed
  qed
  have a3i: "\<And>c. c < n \<Longrightarrow> a3 ! i ! c = a2 ! i ! c" using a3 [OF i] by simp
  have b3i: "b3 ! i = b2 ! i" using b3 [OF i] by simp
  have b3o: "\<And>r. r < n \<Longrightarrow> r \<noteq> i \<Longrightarrow> b3 ! r = b2 ! r - a2 ! r ! i * b2 ! i" using b3 by simp
  show "wfSys n (fst (columnStep n i (a, b))) (snd (columnStep n i (a, b)))"
    using wf3 by (simp add: cs s3)
  show "reducedUpTo n (Suc i) (fst (columnStep n i (a, b)))"
    unfolding reducedUpTo_def cs s3 fst_conv
  proof (intro allI impI)
    fix r c assume rc: "r < n" "c < Suc i"
    then have c: "c < n" using i by simp
    show "a3 ! r ! c = (if r = c then 1 else 0)"
    proof (cases "c = i")
      case ci: True
      show ?thesis
      proof (cases "r = i")
        case True
        then show ?thesis using a3i [OF i] a2i [OF i] p ci by simp
      next
        case False
        have "a2 ! i ! i = 1" using a2i [OF i] p by simp
        then show ?thesis using a3o [OF rc(1) i False] False ci by simp
      qed
    next
      case False
      then have ci: "c < i" using rc(2) by simp
      have z: "a2 ! i ! c = 0" using a2i [OF c] red1 [OF i ci] ci by simp
      show ?thesis
      proof (cases "r = i")
        case True
        then show ?thesis using a3i [OF c] z ci by simp
      next
        case False
        then show ?thesis
          using a3o [OF rc(1) c False] z a2o [OF rc(1) c False] red1 [OF rc(1) ci] by simp
      qed
    qed
  qed
  have e1: "(\<forall>k<n. rowEq n a1 b1 x t k) \<longleftrightarrow> (\<forall>k<n. rowEq n a b x t k)"
    by (rule swap_rowEq [OF i m(2) a1 b1])
  have e2i: "rowEq n a2 b2 x t i \<longleftrightarrow> rowEq n a1 b1 x t i"
    by (rule scale_rowEq [OF p a2i b2i])
  have e2o: "\<And>r. r < n \<Longrightarrow> r \<noteq> i \<Longrightarrow> rowEq n a2 b2 x t r \<longleftrightarrow> rowEq n a1 b1 x t r"
    using a2o b2o by (intro rowEq_cong) auto
  have e2: "(\<forall>k<n. rowEq n a2 b2 x t k) \<longleftrightarrow> (\<forall>k<n. rowEq n a1 b1 x t k)"
    using e2i e2o by metis
  have e3i: "rowEq n a3 b3 x t i \<longleftrightarrow> rowEq n a2 b2 x t i"
    using a3i b3i by (intro rowEq_cong) auto
  have e3o: "\<And>r. r < n \<Longrightarrow> r \<noteq> i \<Longrightarrow> rowEq n a2 b2 x t i \<Longrightarrow>
      rowEq n a3 b3 x t r \<longleftrightarrow> rowEq n a2 b2 x t r"
    using a3o b3o by (intro elim_rowEq) auto
  have e3: "(\<forall>k<n. rowEq n a3 b3 x t k) \<longleftrightarrow> (\<forall>k<n. rowEq n a2 b2 x t k)"
    using e3i e3o i by metis
  show "(\<forall>k<n. rowEq n (fst (columnStep n i (a, b))) (snd (columnStep n i (a, b))) x t k)
           \<longleftrightarrow> (\<forall>k<n. rowEq n a b x t k)"
    using e1 e2 e3 by (simp add: cs s3)
qed

section \<open>The linear solver: correctness on nonsingular systems\<close>

lemma pivot_nonzero:
  assumes wf: "wfSys n a b" and i: "i < n" and red: "reducedUpTo n i a"
    and ker: "\<And>x. (\<forall>k<n. rowEq n a b x 0 k) \<Longrightarrow> (\<forall>j<n. x j = 0)"
  shows "a ! findMaxRow a n i ! i \<noteq> 0"
proof
  assume z: "a ! findMaxRow a n i ! i = 0"
  have col: "\<And>k. i \<le> k \<Longrightarrow> k < n \<Longrightarrow> a ! k ! i = 0"
    using findMaxRow_spec [OF i, of a] z by fastforce
  have red0: "\<And>r c. r < n \<Longrightarrow> c < i \<Longrightarrow> a ! r ! c = (if r = c then 1 else 0)"
    using red by (simp add: reducedUpTo_def)
  define x where "x = (\<lambda>j. if j < i then - (a ! j ! i) else if j = i then 1 else (0::real))"
  have "\<forall>k<n. rowEq n a b x 0 k"
  proof (intro allI impI)
    fix r assume r: "r < n"
    have tm: "a ! r ! j * x j
        = (if j = r then (if r < i then - (a ! r ! i) else 0) else 0) + (if j = i then a ! r ! i else 0)"
      if "j \<in> {..<n}" for j
    proof -
      consider "j < i" | "j = i" | "i < j" by fastforce
      then show ?thesis
      proof cases
        case 1
        then show ?thesis using red0 [OF r 1] by (simp add: x_def)
      next
        case 2
        then show ?thesis by (simp add: x_def)
      next
        case 3
        then show ?thesis by (simp add: x_def)
      qed
    qed
    have "(\<Sum>j<n. a ! r ! j * x j)
        = (\<Sum>j<n. (if j = r then (if r < i then - (a ! r ! i) else 0) else 0)
                  + (if j = i then a ! r ! i else 0))"
      by (rule sum.cong) (simp_all add: tm)
    also have "\<dots> = (if r < i then - (a ! r ! i) else 0) + a ! r ! i"
      using r i by (simp add: sum.distrib)
    also have "\<dots> = 0"
      using col [of r] r by (cases "r < i") simp_all
    finally show "rowEq n a b x 0 r" by (simp add: rowEq_def)
  qed
  then have "x i = 0" using ker i by blast
  then show False by (simp add: x_def)
qed

lemma solverInv_step:
  assumes inv: "solverInv n a0 b0 i ab" and i: "i < n"
    and ns: "nonsingular a0" and n: "length a0 = n"
  shows "solverInv n a0 b0 (Suc i) (columnStep n i ab)"
proof -
  obtain a b where ab: "ab = (a, b)" by (cases ab) auto
  from inv have wf: "wfSys n a b" and red: "reducedUpTo n i a"
    and same: "\<And>x t. (\<forall>k<n. rowEq n a b x t k) \<longleftrightarrow> (\<forall>k<n. rowEq n a0 b0 x t k)"
    by (simp_all add: solverInv_def ab)
  have ker: "\<forall>j<n. x j = 0" if "\<forall>k<n. rowEq n a b x 0 k" for x
  proof -
    from that same [of x 0] have "\<forall>k<n. rowEq n a0 b0 x 0 k" by simp
    then have "\<forall>k < length a0. (\<Sum>j < length a0. a0 ! k ! j * x j) = 0"
      by (simp add: rowEq_def n)
    then show ?thesis using nonsingular_fun [OF ns] n by blast
  qed
  have piv: "a ! findMaxRow a n i ! i \<noteq> 0"
    by (rule pivot_nonzero [OF wf i red ker])
  note st = columnStep_inv [OF wf i red piv]
  show ?thesis
    unfolding solverInv_def ab using st(1) st(2) st(3) same by simp
qed

lemma solverInv_loop:
  assumes "solverInv n a0 b0 0 ab" "nonsingular a0" "length a0 = n" "k \<le> n"
  shows "solverInv n a0 b0 k (fold (columnStep n) [0..<k] ab)"
  using assms(4)
proof (induction k)
  case 0
  then show ?case using assms(1) by simp
next
  case (Suc k)
  then have "solverInv n a0 b0 k (fold (columnStep n) [0..<k] ab)" "k < n" by simp_all
  from solverInv_step [OF this assms(2,3)] show ?case by simp
qed

lemma solveLinearSystem_solves:
  assumes wf: "wfSys (length b0) a0 b0" and ns: "nonsingular a0"
  shows "length (solveLinearSystem a0 b0) = length b0"
    and "\<And>k. k < length b0 \<Longrightarrow>
           (\<Sum>j < length b0. a0 ! k ! j * solveLinearSystem a0 b0 ! j) = b0 ! k"
proof -
  let ?n = "length b0"
  have n: "length a0 = ?n" using wf by (simp add: wfSys_def squareM_def)
  have "solverInv ?n a0 b0 0 (a0, b0)"
    using wf by (simp add: solverInv_def reducedUpTo_def)
  from solverInv_loop [OF this ns n order_refl]
  have inv: "solverInv ?n a0 b0 ?n (fold (columnStep ?n) [0..<?n] (a0, b0))" .
  obtain a b where f: "fold (columnStep ?n) [0..<?n] (a0, b0) = (a, b)"
    by (cases "fold (columnStep ?n) [0..<?n] (a0, b0)") auto
  have res: "solveLinearSystem a0 b0 = b"
    by (simp add: solveLinearSystem_def Let_def f)
  from inv have wfb: "wfSys ?n a b" and red: "\<And>r c. r < ?n \<Longrightarrow> c < ?n \<Longrightarrow> a ! r ! c = (if r = c then 1 else 0)"
    and same: "\<And>x t. (\<forall>k<?n. rowEq ?n a b x t k) \<longleftrightarrow> (\<forall>k<?n. rowEq ?n a0 b0 x t k)"
    by (simp_all add: solverInv_def f reducedUpTo_def)
  show "length (solveLinearSystem a0 b0) = ?n"
    using wfb by (simp add: res wfSys_def)
  have "\<forall>k<?n. rowEq ?n a b (\<lambda>j. b ! j) 1 k"
  proof (intro allI impI)
    fix k assume k: "k < ?n"
    have "(\<Sum>j<?n. a ! k ! j * b ! j) = (\<Sum>j<?n. if j = k then b ! k else 0)"
      by (rule sum.cong) (auto simp: red [OF k])
    then show "rowEq ?n a b (\<lambda>j. b ! j) 1 k"
      using k by (simp add: rowEq_def)
  qed
  then have "\<forall>k<?n. rowEq ?n a0 b0 (\<lambda>j. b ! j) 1 k"
    using same by blast
  then show "\<And>k. k < ?n \<Longrightarrow> (\<Sum>j < ?n. a0 ! k ! j * solveLinearSystem a0 b0 ! j) = b0 ! k"
    by (simp add: rowEq_def res)
qed

lemma eliminate_fold_length:
  "length (snd (fold (\<lambda>k ab. if k = i then ab else eliminateRow n i k ab) ks ab)) = length (snd ab)"
proof (induction ks arbitrary: ab)
  case Nil
  then show ?case by simp
next
  case (Cons k ks)
  have "length (snd (eliminateRow n i k ab)) = length (snd ab)"
    by (cases ab) (simp add: eliminateRow_def Let_def)
  then show ?case using Cons.IH by simp
qed

lemma columnStep_length: "length (snd (columnStep n i ab)) = length (snd ab)"
proof -
  have sw: "\<And>m. length (snd (swapRows i m ab)) = length (snd ab)"
    by (cases ab) (simp add: swapRows_def)
  have nm: "\<And>p ab. length (snd (normalizeRow n i p ab)) = length (snd ab)"
    by (simp add: normalizeRow_def split: prod.splits)
  show ?thesis
    by (simp add: columnStep_def Let_def eliminate_def eliminate_fold_length nm sw)
qed

lemma columnStep_fold_length: "length (snd (fold (columnStep n) ks ab)) = length (snd ab)"
  by (induction ks arbitrary: ab) (simp_all add: columnStep_length)

lemma solveLinearSystem_length: "length (solveLinearSystem matrix vector) = length vector"
  by (simp add: solveLinearSystem_def Let_def columnStep_fold_length)

section \<open>Boundary conditions, displacements and reactions\<close>

lemma partition_fold:
  "fold (\<lambda>i (fr, fx). if i \<in> c then (fr, fx @ [i]) else (fr @ [i], fx)) xs (a, b)
     = (a @ filter (\<lambda>i. i \<notin> c) xs, b @ filter (\<lambda>i. i \<in> c) xs)"
  by (induction xs arbitrary: a b) auto

lemma freeDofs_filter:
  "freeDofs inp = filter (\<lambda>i. i \<notin> constrained inp) [0..<dofCount inp]"
  by (simp add: freeDofs_def partitionDofs_def partition_fold)

lemma freeDofs_distinct: "distinct (freeDofs inp)"
  by (simp add: freeDofs_filter)

lemma freeDofs_set: "set (freeDofs inp) = {d. d < dofCount inp \<and> d \<notin> constrained inp}"
  by (auto simp: freeDofs_filter)

lemma freeDofs_nth_less: "r < length (freeDofs inp) \<Longrightarrow> freeDofs inp ! r < dofCount inp"
  using freeDofs_set [of inp] nth_mem [of r "freeDofs inp"] by auto

lemma reduced_wfSys: "wfSys (length (reducedF inp)) (reducedK inp) (reducedF inp)"
  by (simp add: wfSys_def squareM_def reducedK_def reducedF_def)

lemma reducedK_nth:
  "r < length (freeDofs inp) \<Longrightarrow> c < length (freeDofs inp) \<Longrightarrow>
   reducedK inp ! r ! c = stiffnessK inp ! (freeDofs inp ! r) ! (freeDofs inp ! c)"
  by (simp add: reducedK_def)

lemma scatter_fold:
  assumes "distinct fr" "\<forall>idx < length fr. fr ! idx < n" "k \<le> length fr"
  shows "length (fold (\<lambda>index d. d[fr ! index := fd ! index]) [0..<k] (replicate n (0::real))) = n
       \<and> (\<forall>idx < k. fold (\<lambda>index d. d[fr ! index := fd ! index]) [0..<k] (replicate n 0) ! (fr ! idx) = fd ! idx)
       \<and> (\<forall>d < n. d \<notin> (\<lambda>idx. fr ! idx) ` {..<k} \<longrightarrow>
             fold (\<lambda>index d. d[fr ! index := fd ! index]) [0..<k] (replicate n 0) ! d = 0)"
  using assms(3)
proof (induction k)
  case 0
  then show ?case by simp
next
  case (Suc k)
  let ?r = "fold (\<lambda>index d. d[fr ! index := fd ! index]) [0..<k] (replicate n (0::real))"
  from Suc have IH: "length ?r = n" "\<And>idx. idx < k \<Longrightarrow> ?r ! (fr ! idx) = fd ! idx"
    "\<And>d. d < n \<Longrightarrow> d \<notin> (\<lambda>idx. fr ! idx) ` {..<k} \<Longrightarrow> ?r ! d = 0"
    and k: "k < length fr"
    by auto
  have step: "fold (\<lambda>index d. d[fr ! index := fd ! index]) [0..<Suc k] (replicate n 0) = ?r[fr ! k := fd ! k]"
    by simp
  have kn: "fr ! k < n" using assms(2) k by simp
  have ne: "\<And>idx. idx < k \<Longrightarrow> fr ! idx \<noteq> fr ! k"
    using assms(1) k by (simp add: nth_eq_iff_index_eq)
  have a: "\<And>idx. idx < Suc k \<Longrightarrow> ?r[fr ! k := fd ! k] ! (fr ! idx) = fd ! idx"
  proof -
    fix idx assume "idx < Suc k"
    then consider "idx < k" | "idx = k" by fastforce
    then show "?r[fr ! k := fd ! k] ! (fr ! idx) = fd ! idx"
    proof cases
      case 1
      then show ?thesis using IH(2) [OF 1] ne [OF 1] by simp
    next
      case 2
      then show ?thesis using IH(1) kn by simp
    qed
  qed
  have b: "\<And>d. d < n \<Longrightarrow> d \<notin> (\<lambda>idx. fr ! idx) ` {..<Suc k} \<Longrightarrow> ?r[fr ! k := fd ! k] ! d = 0"
  proof -
    fix d assume d: "d < n" "d \<notin> (\<lambda>idx. fr ! idx) ` {..<Suc k}"
    then have "d \<noteq> fr ! k" "d \<notin> (\<lambda>idx. fr ! idx) ` {..<k}" by (auto simp: lessThan_Suc)
    then show "?r[fr ! k := fd ! k] ! d = 0" using IH(3) [OF d(1)] by simp
  qed
  show ?case unfolding step using IH(1) a b by simp
qed

lemma displacements_spec:
  "length (displacements inp) = dofCount inp"
  "\<And>idx. idx < length (freeDofs inp) \<Longrightarrow> displacements inp ! (freeDofs inp ! idx) = freeDisplacements inp ! idx"
  "\<And>d. d < dofCount inp \<Longrightarrow> d \<notin> set (freeDofs inp) \<Longrightarrow> displacements inp ! d = 0"
proof -
  have lt: "\<forall>idx < length (freeDofs inp). freeDofs inp ! idx < dofCount inp"
    using freeDofs_nth_less by blast
  note sc = scatter_fold [OF freeDofs_distinct lt order_refl, of "freeDisplacements inp", folded displacements_def]
  have img: "(\<lambda>idx. freeDofs inp ! idx) ` {..<length (freeDofs inp)} = set (freeDofs inp)"
    by (simp add: nth_image [of "length (freeDofs inp)" "freeDofs inp", simplified] lessThan_atLeast0)
  show "length (displacements inp) = dofCount inp" using sc by blast
  show "\<And>idx. idx < length (freeDofs inp) \<Longrightarrow> displacements inp ! (freeDofs inp ! idx) = freeDisplacements inp ! idx"
    using sc by blast
  show "\<And>d. d < dofCount inp \<Longrightarrow> d \<notin> set (freeDofs inp) \<Longrightarrow> displacements inp ! d = 0"
    using sc img by auto
qed

lemma fold_index_sum:
  "fold (\<lambda>j sum. sum + f j) [0..<n] (s::real) = s + (\<Sum>j<n. f j)"
  by (induction n) simp_all

lemma rowTimes_sum: "rowTimes row d = (\<Sum>j < length row. row ! j * d ! j)"
  by (simp add: rowTimes_def fold_index_sum)

lemma stiffnessK_lengths:
  "length (stiffnessK inp) = dofCount inp"
  "i < dofCount inp \<Longrightarrow> length (stiffnessK inp ! i) = dofCount inp"
  using stiffnessK_square_symmetric [of inp] by (simp_all add: squareM_def)

lemma reactions_spec:
  "length (reactions inp) = dofCount inp"
  "i < dofCount inp \<Longrightarrow>
     reactions inp ! i = (\<Sum>j < dofCount inp. stiffnessK inp ! i ! j * displacements inp ! j) - loadF inp ! i"
  by (simp_all add: reactions_def stiffnessK_lengths rowTimes_sum)

lemma free_equilibrium:
  assumes ns: "nonsingular (reducedK inp)" and r: "r < length (freeDofs inp)"
  shows "(\<Sum>j < dofCount inp. stiffnessK inp ! (freeDofs inp ! r) ! j * displacements inp ! j)
       = loadF inp ! (freeDofs inp ! r)"
proof -
  let ?fr = "freeDofs inp" and ?K = "stiffnessK inp" and ?d = "displacements inp"
  let ?m = "length ?fr"
  have pos: "length ?fr > 0" using r by (cases ?fr) simp_all
  have fd: "freeDisplacements inp = solveLinearSystem (reducedK inp) (reducedF inp)"
    using pos by (simp add: freeDisplacements_def)
  have lF: "length (reducedF inp) = ?m" by (simp add: reducedF_def)
  have sol: "(\<Sum>c < ?m. reducedK inp ! r ! c * freeDisplacements inp ! c) = reducedF inp ! r"
    using solveLinearSystem_solves(2) [OF reduced_wfSys ns, of r] r unfolding fd lF by simp
  have sub: "set ?fr \<subseteq> {..<dofCount inp}" using freeDofs_set [of inp] by auto
  have "(\<Sum>j < dofCount inp. ?K ! (?fr ! r) ! j * ?d ! j) = (\<Sum>j \<in> set ?fr. ?K ! (?fr ! r) ! j * ?d ! j)"
    by (rule sum.mono_neutral_right) (use sub displacements_spec(3) [of _ inp] in auto)
  also have "\<dots> = (\<Sum>c < ?m. ?K ! (?fr ! r) ! (?fr ! c) * ?d ! (?fr ! c))"
    by (rule sum.reindex_bij_betw [symmetric]) (rule bij_betw_nth [OF freeDofs_distinct refl refl])
  also have "\<dots> = (\<Sum>c < ?m. reducedK inp ! r ! c * freeDisplacements inp ! c)"
    by (rule sum.cong) (simp_all add: reducedK_nth r displacements_spec(2))
  also have "\<dots> = loadF inp ! (?fr ! r)"
    using sol r by (simp add: reducedF_def)
  finally show ?thesis .
qed

lemma reactions_free_zero:
  assumes "nonsingular (reducedK inp)" "f \<in> set (freeDofs inp)"
  shows "reactions inp ! f = 0"
proof -
  from assms(2) obtain r where r: "r < length (freeDofs inp)" "f = freeDofs inp ! r"
    by (auto simp: in_set_conv_nth)
  then have "f < dofCount inp" using freeDofs_nth_less by simp
  then show ?thesis
    using free_equilibrium [OF assms(1) r(1)] r(2) by (simp add: reactions_spec)
qed

lemma cantilever_reducedK: "reducedK cantileverBeam = [[3 / 2, - (3 / 2)], [- (3 / 2), 2]]"
  by code_simp

lemma cantilever_freeDofs: "freeDofs cantileverBeam = [2, 3]"
  by code_simp

lemma less_2_cases: "(k::nat) < 2 \<longleftrightarrow> k = 0 \<or> k = 1"
  by arith

lemma cantilever_nonsingular: "nonsingular (reducedK cantileverBeam)"
  unfolding nonsingular_def cantilever_reducedK
proof (intro allI impI)
  fix x :: "real list" and j :: nat
  assume len: "length x = length [[3 / 2, - (3 / 2)], [- (3 / 2), 2 :: real]]"
    and eq: "\<forall>k<length [[3 / 2, - (3 / 2)], [- (3 / 2), 2 :: real]].
       (\<Sum>j<length [[3 / 2, - (3 / 2)], [- (3 / 2), 2 :: real]]. [[3 / 2, - (3 / 2)], [- (3 / 2), 2]] ! k ! j * x ! j) = 0"
    and j: "j < length [[3 / 2, - (3 / 2)], [- (3 / 2), 2 :: real]]"
  have two: "{..<2::nat} = {0, 1}" by auto
  from eq [rule_format, of 0] eq [rule_format, of 1]
  have "3 / 2 * x ! 0 - 3 / 2 * x ! 1 = 0" "- (3 / 2) * x ! 0 + 2 * x ! 1 = 0"
    by (simp_all add: two)
  then have "x ! 0 = 0 \<and> x ! 1 = 0" by simp
  moreover have "j = 0 \<or> j = 1" using j by auto
  ultimately show "x ! j = 0" by auto
qed

text \<open>
  Claim C6. The reaction vector has one entry per DOF, and entry \<open>i\<close> is row \<open>i\<close> of
  \<open>K d - F\<close>. When the reduced stiffness matrix is nonsingular (numbers being exact
  reals), the entry at every free DOF is zero.
\<close>

theorem reactions_residual_zero_at_free_dofs:
  "length (model_reactions (assembleBeamModel inp)) = length (model_K (assembleBeamModel inp))
   \<and> (\<forall>i < length (model_K (assembleBeamModel inp)).
         model_reactions (assembleBeamModel inp) ! i
           = (\<Sum>j < length (model_K (assembleBeamModel inp)).
                model_K (assembleBeamModel inp) ! i ! j * model_displacements (assembleBeamModel inp) ! j)
             - model_F (assembleBeamModel inp) ! i)
   \<and> (nonsingular (reducedK inp) \<longrightarrow>
        (\<forall>f \<in> set (freeDofs inp). model_reactions (assembleBeamModel inp) ! f = 0))"
  using reactions_spec [where inp = inp] reactions_free_zero [where inp = inp]
  by (simp add: assembleBeamModel_def stiffnessK_lengths)

theorem reactions_residual_zero_at_free_dofs_witness:
  "nonsingular (reducedK cantileverBeam)
   \<and> 2 \<in> set (freeDofs cantileverBeam) \<and> 3 \<in> set (freeDofs cantileverBeam)
   \<and> model_reactions (assembleBeamModel cantileverBeam) ! 2 = 0
   \<and> model_reactions (assembleBeamModel cantileverBeam) ! 3 = 0"
  using reactions_residual_zero_at_free_dofs [of cantileverBeam] cantilever_nonsingular
  by (simp add: cantilever_freeDofs)

section \<open>No failure on singular systems, unsupported beams and non-positive spans\<close>

text \<open>
  Claim C1, as stated, fails. The beam of span 2 on a single roller, with a unit load at
  the tip, has a singular reduced system: after two columns the pivot of the third is
  exactly 0. The solver does not fail on it; it divides by \<open>10\<^sup>-\<^sup>1\<^sup>2\<close> instead and
  returns the numbers below.
\<close>

theorem singular_system_returns_numbers:
  "reducedK rollerOnlyBeam = [[2, - (3 / 2), 1], [- (3 / 2), 3 / 2, - (3 / 2)], [1, - (3 / 2), 2]]
   \<and> reducedF rollerOnlyBeam = [0, 1, 0]
   \<and> fst (fold (columnStep 3) [0..<2] (reducedK rollerOnlyBeam, reducedF rollerOnlyBeam)) ! 2 ! 2 = 0
   \<and> solveLinearSystem (reducedK rollerOnlyBeam) (reducedF rollerOnlyBeam)
       = [1000000000000, 2000000000000, 1000000000000]
   \<and> model_displacements (assembleBeamModel rollerOnlyBeam)
       = [0, 1000000000000, 2000000000000, 1000000000000]"
  by code_simp

lemma columnStep_pivot_row:
  assumes wf: "wfSys n a b" and i: "i < n"
  shows "snd (columnStep n i (a, b)) ! i
           = b ! findMaxRow a n i
             / (if a ! findMaxRow a n i ! i = 0 then 1 / 10 ^ 12 else a ! findMaxRow a n i ! i)"
    and "i \<le> c \<Longrightarrow> c < n \<Longrightarrow>
         fst (columnStep n i (a, b)) ! i ! c
           = a ! findMaxRow a n i ! c
             / (if a ! findMaxRow a n i ! i = 0 then 1 / 10 ^ 12 else a ! findMaxRow a n i ! i)"
proof -
  let ?m = "findMaxRow a n i"
  have m: "?m < n" using findMaxRow_spec [OF i, of a] by simp
  obtain a1 b1 where s1: "swapRows i ?m (a, b) = (a1, b1)"
    by (cases "swapRows i ?m (a, b)") auto
  have wf1: "wfSys n a1 b1" and a1: "a1 ! i = a ! ?m" and b1: "b1 ! i = b ! ?m"
    using swapRows_spec [OF wf i m] i by (simp_all add: s1)
  define p :: real where "p = (if a ! ?m ! i = 0 then 1 / 10 ^ 12 else a ! ?m ! i)"
  have pv: "pivotOf a1 i = p" using a1 by (simp add: pivotOf_def p_def)
  obtain a2 b2 where s2: "normalizeRow n i p (a1, b1) = (a2, b2)"
    by (cases "normalizeRow n i p (a1, b1)") auto
  have wf2: "wfSys n a2 b2" and b2: "b2 ! i = b1 ! i / p"
    and a2: "\<And>c. i \<le> c \<Longrightarrow> c < n \<Longrightarrow> a2 ! i ! c = a1 ! i ! c / p"
    using normalizeRow_spec [OF wf1 i, where p = p] i by (simp_all add: s2)
  have cs: "columnStep n i (a, b) = eliminate n i (a2, b2)"
    by (simp add: columnStep_def Let_def s1 pv s2)
  have "snd (eliminate n i (a2, b2)) ! i = b2 ! i"
    using eliminate_spec(3) [OF wf2 i i] by simp
  then show "snd (columnStep n i (a, b)) ! i = b ! ?m / (if a ! ?m ! i = 0 then 1 / 10 ^ 12 else a ! ?m ! i)"
    unfolding cs by (simp add: b2 b1 p_def)
  show "fst (columnStep n i (a, b)) ! i ! c = a ! ?m ! c / (if a ! ?m ! i = 0 then 1 / 10 ^ 12 else a ! ?m ! i)"
    if c: "i \<le> c" "c < n"
  proof -
    have "fst (eliminate n i (a2, b2)) ! i ! c = a2 ! i ! c"
      using eliminate_spec(2) [OF wf2 i i c(2)] by simp
    then show ?thesis
      unfolding cs using a2 [OF c] by (simp add: a1 p_def)
  qed
qed

lemma solveLinearSystem_wf_length:
  "wfSys (length vector) matrix vector \<Longrightarrow> length (solveLinearSystem matrix vector) = length vector"
  by (rule solveLinearSystem_length)

text \<open>
  Claim C1, amended. For every reduced system (a square matrix with a row and a column
  for every entry of the right-hand side) \<^verbatim>\<open>solveLinearSystem\<close> does not fail: it
  returns a vector with one entry per entry of the right-hand side. It has no threshold
  on the pivot. In the pass for column \<open>i\<close> the selected row is divided, from column
  \<open>i\<close> on and in its right-hand side entry, by the selected pivot when that is not
  zero, however small it is, and by \<open>10\<^sup>-\<^sup>1\<^sup>2\<close> when it is exactly zero.
\<close>

theorem solver_substitutes_epsilon_and_returns:
  "(wfSys (length vector) matrix vector \<longrightarrow>
      length (solveLinearSystem matrix vector) = length vector)
   \<and> (wfSys n a b \<and> i < n \<longrightarrow>
        snd (columnStep n i (a, b)) ! i
          = b ! findMaxRow a n i
            / (if a ! findMaxRow a n i ! i = 0 then 1 / 10 ^ 12 else a ! findMaxRow a n i ! i))
   \<and> (wfSys n a b \<and> i < n \<and> i \<le> c \<and> c < n \<longrightarrow>
        fst (columnStep n i (a, b)) ! i ! c
          = a ! findMaxRow a n i ! c
            / (if a ! findMaxRow a n i ! i = 0 then 1 / 10 ^ 12 else a ! findMaxRow a n i ! i))"
  using columnStep_pivot_row(1) [where n = n and a = a and b = b and i = i]
    columnStep_pivot_row(2) [where n = n and a = a and b = b and i = i and c = c]
    solveLinearSystem_wf_length [where vector = vector and matrix = matrix]
  by simp

theorem solver_substitutes_epsilon_and_returns_witness:
  "wfSys 2 [[0, 1], [0, 2]] [3, 4]
   \<and> length (solveLinearSystem [[0, 1], [0, 2]] [3, 4]) = 2
   \<and> findMaxRow [[0, 1], [0, 2]] 2 0 = 0
   \<and> snd (columnStep 2 0 ([[0, 1], [0, 2]], [3, 4])) ! 0 = 3000000000000
   \<and> fst (columnStep 2 0 ([[0, 1], [0, 2]], [3, 4])) ! 0 ! 1 = 1000000000000
   \<and> wfSys 2 [[1 / 100000000000000000000, 1], [0, 2]] [3, 4]
   \<and> findMaxRow [[1 / 100000000000000000000, 1], [0, 2]] 2 0 = 0
   \<and> snd (columnStep 2 0 ([[1 / 100000000000000000000, 1], [0, 2]], [3, 4])) ! 0 = 300000000000000000000"
proof -
  have fm: "findMaxRow [[0, 1], [0, 2]] 2 0 = 0" "findMaxRow [[1 / 100000000000000000000, 1], [0, 2]] 2 0 = 0"
    by code_simp+
  have wf: "wfSys 2 [[0, 1], [0, 2]] [3, 4]" "wfSys 2 [[1 / 100000000000000000000, 1], [0, 2]] [3, 4]"
    by (simp_all add: wfSys_def squareM_def less_2_cases)
  have wfl: "wfSys (length [3, 4 :: real]) [[0, 1], [0, 2]] [3, 4]"
    by (simp add: wfSys_def squareM_def less_Suc_eq)
  note t1 = solver_substitutes_epsilon_and_returns
    [of "[3, 4]" "[[0, 1], [0, 2]]" 2 "[[0, 1], [0, 2]]" "[3, 4]" 0 1]
  from t1 wfl have "length (solveLinearSystem [[0, 1], [0, 2]] [3, 4]) = length [3, 4 :: real]"
    by blast
  then have 0: "length (solveLinearSystem [[0, 1], [0, 2]] [3, 4]) = 2" by simp
  from t1 wf(1)
  have 1: "snd (columnStep 2 0 ([[0, 1], [0, 2]], [3, 4])) ! 0 = 3000000000000"
    "fst (columnStep 2 0 ([[0, 1], [0, 2]], [3, 4])) ! 0 ! 1 = 1000000000000"
    by (simp_all add: fm)
  from solver_substitutes_epsilon_and_returns
    [of "[3, 4]" "[[0, 1], [0, 2]]" 2 "[[1 / 100000000000000000000, 1], [0, 2]]" "[3, 4]" 0 1] wf(2)
  have 2: "snd (columnStep 2 0 ([[1 / 100000000000000000000, 1], [0, 2]], [3, 4])) ! 0 = 300000000000000000000"
    by (simp add: fm)
  show ?thesis using wf fm 0 1 2 by simp
qed

text \<open>
  Claim C2, as stated, fails. Without supports every DOF is free, \<^verbatim>\<open>freeDofs\<close> holds all
  four DOFs, and the solver is run on the full (singular) system: the solution vector
  has four entries.
\<close>

theorem unsupported_beam_is_solved:
  "supports unsupportedBeam = []
   \<and> freeDofs unsupportedBeam = [0, 1, 2, 3]
   \<and> freeDisplacements unsupportedBeam = [1000000000000, 0, 1000000000000, 0]"
  by code_simp

lemma dofCount_ge_2: "2 \<le> dofCount inp"
proof -
  have "0 \<in> set (nodePositions inp)"
    by (simp add: nodePositions_def set_uniqueSorted)
  then have "0 < length (nodePositions inp)" by (cases "nodePositions inp") auto
  then show ?thesis unfolding dofCount_def by linarith
qed

lemma freeDofs_all_constrained:
  assumes "\<forall>d < dofCount inp. d \<in> constrained inp"
  shows "freeDofs inp = []"
  using assms by (simp add: freeDofs_filter filter_empty_conv)

lemma freeDofs_none_constrained:
  assumes "\<forall>d < dofCount inp. d \<notin> constrained inp"
  shows "freeDofs inp = [0..<dofCount inp]"
  using assms by (simp add: freeDofs_filter filter_id_conv)

lemma scatter_nothing: "displacements inp = replicate (dofCount inp) 0" if "freeDofs inp = []"
  using that by (simp add: displacements_def)

text \<open>
  Claim C2, amended. The guard is \<^verbatim>\<open>freeDofs.length > 0\<close>: when every DOF is
  constrained, so that no DOF is free, the solver is not called, the solution vector is
  empty and all displacements are zero. When every DOF is free, the solver is called on
  the full system and the solution vector has one entry per DOF, at least two.
\<close>

theorem empty_solution_when_no_dof_is_free:
  "((\<forall>d < dofCount inp. d \<in> constrained inp) \<longrightarrow>
      freeDisplacements inp = [] \<and> model_displacements (assembleBeamModel inp) = replicate (dofCount inp) 0)
   \<and> ((\<forall>d < dofCount inp. d \<notin> constrained inp) \<longrightarrow>
        freeDisplacements inp = solveLinearSystem (reducedK inp) (reducedF inp)
        \<and> length (freeDisplacements inp) = dofCount inp
        \<and> freeDisplacements inp \<noteq> [])"
proof (intro conjI impI)
  assume a: "\<forall>d < dofCount inp. d \<in> constrained inp"
  show "freeDisplacements inp = []"
    using freeDofs_all_constrained [OF a] by (simp add: freeDisplacements_def)
  show "model_displacements (assembleBeamModel inp) = replicate (dofCount inp) 0"
    using scatter_nothing [OF freeDofs_all_constrained [OF a]] by (simp add: assembleBeamModel_def)
next
  assume a: "\<forall>d < dofCount inp. d \<notin> constrained inp"
  have fr: "freeDofs inp = [0..<dofCount inp]" by (rule freeDofs_none_constrained [OF a])
  have pos: "length (freeDofs inp) > 0" using dofCount_ge_2 [of inp] by (simp add: fr)
  show fd: "freeDisplacements inp = solveLinearSystem (reducedK inp) (reducedF inp)"
    using pos by (simp add: freeDisplacements_def)
  show len: "length (freeDisplacements inp) = dofCount inp"
    by (simp add: fd solveLinearSystem_length reducedF_def fr)
  show "freeDisplacements inp \<noteq> []"
    using len dofCount_ge_2 [of inp] by auto
qed

lemma clamped_constrained: "dofCount clampedBeam = 4 \<and> constrained clampedBeam = {0, 1, 2, 3}"
  by (auto simp: dofCount_def constrained_def constrainSupport_def nodePositions_def clampedBeam_def
      uniqueSorted_def newSet_def)

lemma unsupported_constrained: "dofCount unsupportedBeam = 4 \<and> constrained unsupportedBeam = {}"
  by (simp add: dofCount_def constrained_def nodePositions_def unsupportedBeam_def
      uniqueSorted_def newSet_def)

theorem empty_solution_when_no_dof_is_free_witness:
  "dofCount clampedBeam = 4 \<and> constrained clampedBeam = {0, 1, 2, 3}
   \<and> freeDisplacements clampedBeam = []
   \<and> model_displacements (assembleBeamModel clampedBeam) = [0, 0, 0, 0]
   \<and> dofCount unsupportedBeam = 4 \<and> constrained unsupportedBeam = {}
   \<and> length (freeDisplacements unsupportedBeam) = 4"
proof -
  have c: "\<forall>d < dofCount clampedBeam. d \<in> constrained clampedBeam"
    by (auto simp: clamped_constrained)
  have u: "\<forall>d < dofCount unsupportedBeam. d \<notin> constrained unsupportedBeam"
    by (simp add: unsupported_constrained)
  have r4: "replicate 4 (0::real) = [0, 0, 0, 0]" by (simp add: numeral_eq_Suc)
  have dc: "dofCount clampedBeam = 4" "dofCount unsupportedBeam = 4"
    by (simp_all add: clamped_constrained unsupported_constrained)
  from empty_solution_when_no_dof_is_free [of clampedBeam] c
  have 1: "freeDisplacements clampedBeam = []"
    "model_displacements (assembleBeamModel clampedBeam) = replicate (dofCount clampedBeam) 0"
    by blast+
  from empty_solution_when_no_dof_is_free [of unsupportedBeam] u
  have 2: "length (freeDisplacements unsupportedBeam) = dofCount unsupportedBeam"
    by blast
  show ?thesis
    using 1 2 clamped_constrained unsupported_constrained unfolding dc r4 by blast
qed

text \<open>
  Claim C3, as stated, fails. With span 0 and nothing else the analysis returns a result:
  a mesh of the single node 0, no element, a zero stiffness matrix and zero vectors.
\<close>

theorem zero_span_returns_result:
  "assembleBeamModel zeroSpanBeam
     = \<lparr>model_nodePositions = [0], model_displacements = [0, 0], model_reactions = [0, 0],
        model_K = [[0, 0], [0, 0]], model_F = [0, 0]\<rparr>"
  by code_simp

lemma addPointLoad_length: "length (addPointLoad nodes load F) = length F"
  by (simp add: addPointLoad_def Let_def)

lemma loadF_length: "length (loadF inp) = dofCount inp"
proof -
  have "\<And>F. length (fold (addPointLoad (nodePositions inp)) ls F) = length F" for ls
    by (induction ls) (simp_all add: addPointLoad_length)
  then show ?thesis
    using assembleElements_F [of inp] by (simp add: loadF_def)
qed

text \<open>
  Claim C3, amended. \<^verbatim>\<open>assembleBeamModel\<close> makes no check of the span. For a span
  \<open>\<le> 0\<close> it returns a result as for any other input: the node positions are strictly
  increasing and contain the span and 0, and the stiffness matrix and the load,
  displacement and reaction vectors have two entries per node. With span 0 and no
  supports or loads the mesh is the single node 0.
\<close>

theorem nonpositive_span_is_analysed:
  assumes "span inp \<le> 0"
  shows "span inp \<in> set (model_nodePositions (assembleBeamModel inp))
       \<and> 0 \<in> set (model_nodePositions (assembleBeamModel inp))
       \<and> sorted_wrt (<) (model_nodePositions (assembleBeamModel inp))
       \<and> length (model_displacements (assembleBeamModel inp))
           = 2 * length (model_nodePositions (assembleBeamModel inp))
       \<and> length (model_reactions (assembleBeamModel inp))
           = 2 * length (model_nodePositions (assembleBeamModel inp))
       \<and> length (model_K (assembleBeamModel inp)) = 2 * length (model_nodePositions (assembleBeamModel inp))
       \<and> length (model_F (assembleBeamModel inp)) = 2 * length (model_nodePositions (assembleBeamModel inp))
       \<and> (span inp = 0 \<and> supports inp = [] \<and> pointLoads inp = [] \<and> udls inp = [] \<longrightarrow>
            model_nodePositions (assembleBeamModel inp) = [0])"
proof -
  have s: "set (nodePositions inp) \<supseteq> {0, span inp}" "sorted_wrt (<) (nodePositions inp)"
    by (simp_all add: nodePositions_def set_uniqueSorted strict_uniqueSorted)
  have z: "span inp = 0 \<and> supports inp = [] \<and> pointLoads inp = [] \<and> udls inp = [] \<longrightarrow>
      nodePositions inp = [0]"
    by (simp add: nodePositions_def uniqueSorted_def newSet_def)
  show ?thesis
    using s z displacements_spec(1) [of inp] reactions_spec(1) [of inp] stiffnessK_lengths(1) [of inp]
      loadF_length [of inp]
    by (simp add: assembleBeamModel_def dofCount_def)
qed

theorem nonpositive_span_is_analysed_witness:
  "span negativeSpanBeam \<le> 0
   \<and> - 2 \<in> set (model_nodePositions (assembleBeamModel negativeSpanBeam))
   \<and> length (model_displacements (assembleBeamModel negativeSpanBeam))
       = 2 * length (model_nodePositions (assembleBeamModel negativeSpanBeam))
   \<and> span zeroSpanBeam = 0
   \<and> model_nodePositions (assembleBeamModel zeroSpanBeam) = [0]"
proof -
  have n: "span negativeSpanBeam \<le> 0" "span negativeSpanBeam = - 2"
    by (simp_all add: negativeSpanBeam_def)
  have z: "span zeroSpanBeam \<le> 0" "span zeroSpanBeam = 0" "supports zeroSpanBeam = []"
    "pointLoads zeroSpanBeam = []" "udls zeroSpanBeam = []"
    by (simp_all add: zeroSpanBeam_def)
  show ?thesis
    using nonpositive_span_is_analysed [OF n(1)] nonpositive_span_is_analysed [OF z(1)] n z
    by simp
qed



section \<open>The linear solver on a store: the arguments are not written\<close>

lemma numbersAt_update:
  "p < length s \<Longrightarrow> numbersAt (s[p := Numbers xs]) q = (if q = p then xs else numbersAt s q)"
  by (simp add: numbersAt_def nth_list_update)

lemma rowsAt_update_Numbers:
  "q \<noteq> p \<Longrightarrow> rowsAt (s[p := Numbers xs]) q = rowsAt s q"
  by (simp add: rowsAt_def)

lemma rowsAt_update_Rows:
  "p < length s \<Longrightarrow> rowsAt (s[p := Rows rs]) p = rs"
  by (simp add: rowsAt_def)

lemma numbersAt_update_Rows:
  "q \<noteq> p \<Longrightarrow> numbersAt (s[p := Rows rs]) q = numbersAt s q"
  by (simp add: numbersAt_def)

lemma sim_readEntry:
  assumes "simR s0 a b s (A, B)" "k < length A"
  shows "readEntry s a k j = A ! k ! j"
  using assms by (simp add: simR_def readEntry_def)

lemma sim_readNumber:
  assumes "simR s0 a b s (A, B)"
  shows "readNumber s b k = B ! k"
  using assms by (simp add: simR_def readNumber_def)

lemma sim_length: "simR s0 a b s (A, B) \<Longrightarrow> length (rowsAt s a) = length A"
  by (simp add: simR_def)

lemma map_update_distinct:
  assumes "distinct rs" "k < length rs"
  shows "map (\<lambda>q. if q = rs ! k then x else f q) rs = (map f rs)[k := x]"
proof (rule nth_equalityI)
  show "length (map (\<lambda>q. if q = rs ! k then x else f q) rs) = length ((map f rs)[k := x])" by simp
  fix i assume "i < length (map (\<lambda>q. if q = rs ! k then x else f q) rs)"
  then have i: "i < length rs" by simp
  then show "map (\<lambda>q. if q = rs ! k then x else f q) rs ! i = (map f rs)[k := x] ! i"
    using assms by (auto simp: nth_list_update nth_eq_iff_index_eq)
qed

lemma simRI:
  assumes "take (length s0) s = s0" "length s0 \<le> a" "a < length s" "length s0 \<le> b" "b < length s"
    "a \<noteq> b" "s ! a = Rows (rowsAt s a)" "s ! b = Numbers (numbersAt s b)" "distinct (rowsAt s a)"
    "\<forall>r \<in> set (rowsAt s a). length s0 \<le> r \<and> r < length s \<and> r \<noteq> a \<and> r \<noteq> b"
    "A = map (numbersAt s) (rowsAt s a)" "B = numbersAt s b"
  shows "simR s0 a b s (A, B)"
  using assms unfolding simR_def fst_conv snd_conv by blast

lemma simRD:
  assumes "simR s0 a b s (A, B)"
  shows "take (length s0) s = s0" "length s0 \<le> a" "a < length s" "length s0 \<le> b" "b < length s"
    "a \<noteq> b" "s ! a = Rows (rowsAt s a)" "s ! b = Numbers (numbersAt s b)" "distinct (rowsAt s a)"
    "\<forall>r \<in> set (rowsAt s a). length s0 \<le> r \<and> r < length s \<and> r \<noteq> a \<and> r \<noteq> b"
    "A = map (numbersAt s) (rowsAt s a)" "B = numbersAt s b"
  using assms unfolding simR_def fst_conv snd_conv by blast+

lemma sim_writeEntry:
  assumes sim: "simR s0 a b s (A, B)" and k: "k < length A"
  shows "simR s0 a b (writeEntry a k j v s) (A[k := (A ! k)[j := v]], B)"
proof -
  note d = simRD [OF sim]
  let ?rs = "rowsAt s a"
  let ?r = "?rs ! k"
  let ?new = "(numbersAt s ?r)[j := v]"
  let ?s' = "s[?r := Numbers ?new]"
  have kr: "k < length ?rs" using d(11) k by simp
  then have rin: "?r \<in> set ?rs" by simp
  from d(10) rin have r: "length s0 \<le> ?r" "?r < length s" "?r \<noteq> a" "?r \<noteq> b"
    by auto
  have w: "writeEntry a k j v s = ?s'" by (simp add: writeEntry_def Let_def)
  have rows: "rowsAt ?s' a = ?rs" using r(3) by (simp add: rowsAt_update_Numbers)
  have nums: "\<And>q. numbersAt ?s' q = (if q = ?r then ?new else numbersAt s q)"
    using r(2) by (simp add: numbersAt_update)
  have "map (numbersAt ?s') ?rs = (map (numbersAt s) ?rs)[k := ?new]"
    unfolding nums by (rule map_update_distinct [OF d(9) kr])
  then have Anew: "A[k := (A ! k)[j := v]] = map (numbersAt ?s') (rowsAt ?s' a)"
    using kr by (simp add: rows d(11))
  have nb: "numbersAt ?s' b = numbersAt s b" using r(4) by (simp add: nums)
  show ?thesis
    unfolding w
  proof (rule simRI)
    show "take (length s0) ?s' = s0" using d(1) r(1) by simp
    show "?s' ! a = Rows (rowsAt ?s' a)" using d(7) r(3) by (simp add: rows)
    show "?s' ! b = Numbers (numbersAt ?s' b)" using d(8) r(4) by (simp add: nb)
    show "distinct (rowsAt ?s' a)" using d(9) by (simp add: rows)
    show "\<forall>r \<in> set (rowsAt ?s' a). length s0 \<le> r \<and> r < length ?s' \<and> r \<noteq> a \<and> r \<noteq> b"
      using d(10) by (simp add: rows)
    show "A[k := (A ! k)[j := v]] = map (numbersAt ?s') (rowsAt ?s' a)" by (rule Anew)
    show "B = numbersAt ?s' b" using d(12) by (simp add: nb)
  qed (use d in simp_all)
qed

lemma sim_writeNumber:
  assumes sim: "simR s0 a b s (A, B)"
  shows "simR s0 a b (writeNumber b k v s) (A, B[k := v])"
proof -
  note d = simRD [OF sim]
  let ?s' = "s[b := Numbers ((numbersAt s b)[k := v])]"
  have rows: "rowsAt ?s' a = rowsAt s a" using d(6) by (simp add: rowsAt_update_Numbers)
  have nums: "\<And>q. numbersAt ?s' q = (if q = b then (numbersAt s b)[k := v] else numbersAt s q)"
    using d(5) by (simp add: numbersAt_update)
  have m: "map (numbersAt ?s') (rowsAt s a) = map (numbersAt s) (rowsAt s a)"
    using d(10) by (intro map_cong) (auto simp: nums)
  show ?thesis
    unfolding writeNumber_def
  proof (rule simRI)
    show "take (length s0) ?s' = s0" using d(1) d(4) by simp
    show "?s' ! a = Rows (rowsAt ?s' a)" using d(7) d(6) by (simp add: rows)
    show "?s' ! b = Numbers (numbersAt ?s' b)" using d(5) by (simp add: nums)
    show "distinct (rowsAt ?s' a)" using d(9) by (simp add: rows)
    show "\<forall>r \<in> set (rowsAt ?s' a). length s0 \<le> r \<and> r < length ?s' \<and> r \<noteq> a \<and> r \<noteq> b"
      using d(10) by (simp add: rows)
    show "A = map (numbersAt ?s') (rowsAt ?s' a)" using d(11) by (simp add: rows m)
    show "B[k := v] = numbersAt ?s' b" using d(12) by (simp add: nums)
  qed (use d in simp_all)
qed

lemma sim_swapRows:
  assumes sim: "simR s0 a b s (A, B)" and i: "i < length A" and m: "m < length A"
  shows "simR s0 a b (swapRowsS a b i m s) (swapRows i m (A, B))"
proof (cases "m = i")
  case True
  then show ?thesis using sim by (simp add: swapRowsS_def swapRows_def)
next
  case False
  note d = simRD [OF sim]
  let ?rs = "rowsAt s a"
  let ?rs' = "?rs[i := ?rs ! m, m := ?rs ! i]"
  let ?s1 = "s[a := Rows ?rs']"
  let ?B' = "B[i := B ! m, m := B ! i]"
  let ?s2 = "?s1[b := Numbers ?B']"
  have ir: "i < length ?rs" "m < length ?rs" using d(11) i m by simp_all
  have n1: "\<And>q. q \<noteq> a \<Longrightarrow> numbersAt ?s1 q = numbersAt s q"
    by (simp add: numbersAt_update_Rows)
  have nb1: "numbersAt ?s1 b = B" using d(6) d(12) by (simp add: n1)
  have sw: "swapRowsS a b i m s = ?s2"
    using False by (simp add: swapRowsS_def Let_def nb1)
  have pw: "swapRows i m (A, B) = (A[i := A ! m, m := A ! i], ?B')"
    using False by (simp add: swapRows_def)
  have rows2: "rowsAt ?s2 a = ?rs'"
    using d(3) d(6) by (simp add: rowsAt_update_Numbers rowsAt_update_Rows)
  have set': "set ?rs' = set ?rs"
    using ir by (simp add: set_swap)
  have nums2: "\<And>q. q \<noteq> a \<Longrightarrow> numbersAt ?s2 q = (if q = b then ?B' else numbersAt s q)"
    using d(5) by (simp add: numbersAt_update n1)
  have mp: "map (numbersAt ?s2) ?rs' = map (numbersAt s) ?rs'"
    using d(10) set' by (intro map_cong) (auto simp: nums2)
  have Anew: "A[i := A ! m, m := A ! i] = map (numbersAt s) ?rs'"
    unfolding d(11) using ir by (simp add: map_update)
  show ?thesis
    unfolding sw pw
  proof (rule simRI)
    show "take (length s0) ?s2 = s0" using d(1) d(2) d(4) by simp
    show "?s2 ! a = Rows (rowsAt ?s2 a)" using d(3) d(6) by (simp add: rows2)
    show "?s2 ! b = Numbers (numbersAt ?s2 b)" using d(5) d(6) by (simp add: nums2)
    show "distinct (rowsAt ?s2 a)" using d(9) ir by (simp add: rows2 distinct_swap)
    show "\<forall>r \<in> set (rowsAt ?s2 a). length s0 \<le> r \<and> r < length ?s2 \<and> r \<noteq> a \<and> r \<noteq> b"
      using d(10) by (simp add: rows2 set')
    show "A[i := A ! m, m := A ! i] = map (numbersAt ?s2) (rowsAt ?s2 a)"
      by (simp add: rows2 mp Anew)
    show "?B' = numbersAt ?s2 b" using d(6) by (simp add: nums2)
  qed (use d in simp_all)
qed

lemma fold_max_agree:
  fixes f g :: "nat \<Rightarrow> real"
  assumes "f m0 = g m0" "\<And>k. lo \<le> k \<Longrightarrow> k < hi \<Longrightarrow> f k = g k"
  shows "fold (\<lambda>k m. if f k > f m then k else m) [lo..<hi] m0
       = fold (\<lambda>k m. if g k > g m then k else m) [lo..<hi] m0"
  using assms(2)
proof (induction hi)
  case 0
  then show ?case by simp
next
  case (Suc hi)
  show ?case
  proof (cases "lo \<le> hi")
    case True
    let ?m = "fold (\<lambda>k m. if f k > f m then k else m) [lo..<hi] m0"
    have IH: "?m = fold (\<lambda>k m. if g k > g m then k else m) [lo..<hi] m0"
      using Suc by simp
    have "?m = m0 \<or> (lo \<le> ?m \<and> ?m < hi)" using fold_max_index [of f lo hi m0] by blast
    then have fm: "f ?m = g ?m" using assms(1) Suc.prems by auto
    have fh: "f hi = g hi" using Suc.prems True by simp
    show ?thesis using True IH [symmetric] fm fh by simp
  next
    case False
    then show ?thesis by simp
  qed
qed

lemma sim_findMaxRow:
  assumes sim: "simR s0 a b s (A, B)" and sz: "sz \<le> length A" and i: "i < sz"
  shows "findMaxRowS s a sz i = findMaxRow A sz i"
  unfolding findMaxRowS_def findMaxRow_def
proof (rule fold_max_agree)
  show "\<bar>readEntry s a i i\<bar> = \<bar>A ! i ! i\<bar>"
    using sim_readEntry [OF sim, of i i] sz i by simp
  show "\<bar>readEntry s a k i\<bar> = \<bar>A ! k ! i\<bar>" if "i + 1 \<le> k" "k < sz" for k
    using sim_readEntry [OF sim, of k i] sz that by simp
qed

lemma sim_pivotOf:
  assumes "simR s0 a b s (A, B)" "i < length A"
  shows "pivotOfS s a i = pivotOf A i"
  using sim_readEntry [OF assms, of i] by (simp add: pivotOfS_def pivotOf_def)

lemma sim_fold:
  assumes "simR s0 a b s AB" "length (fst AB) = n"
    and step: "\<And>j s AB. simR s0 a b s AB \<Longrightarrow> length (fst AB) = n \<Longrightarrow>
                 simR s0 a b (fS j s) (fP j AB) \<and> length (fst (fP j AB)) = n"
  shows "simR s0 a b (fold fS js s) (fold fP js AB) \<and> length (fst (fold fP js AB)) = n"
  using assms(1,2)
proof (induction js arbitrary: s AB)
  case Nil
  then show ?case by simp
next
  case (Cons j js)
  from step [OF Cons.prems, of j]
  have "simR s0 a b (fS j s) (fP j AB)" "length (fst (fP j AB)) = n" by simp_all
  from Cons.IH [OF this] show ?case by simp
qed

lemma fold_on_fst: "fold (\<lambda>j AB. (fA j (fst AB), snd AB)) js (A, B) = (fold fA js A, B)"
  by (induction js arbitrary: A) simp_all

lemma sim_normalizeRow:
  assumes sim: "simR s0 a b s (A, B)" and i: "i < length A"
  shows "simR s0 a b (normalizeRowS a b sz i p s) (normalizeRow sz i p (A, B))
       \<and> length (fst (normalizeRow sz i p (A, B))) = length A"
proof -
  let ?fS = "\<lambda>j s. writeEntry a i j (readEntry s a i j / p) s"
  let ?fA = "\<lambda>j A. A[i := (A ! i)[j := A ! i ! j / p]]"
  have "simR s0 a b (fold ?fS [i..<sz] s) (fold (\<lambda>j AB. (?fA j (fst AB), snd AB)) [i..<sz] (A, B))
      \<and> length (fst (fold (\<lambda>j AB. (?fA j (fst AB), snd AB)) [i..<sz] (A, B))) = length A"
  proof (rule sim_fold [OF sim])
    show "length (fst (A, B)) = length A" by simp
    fix j s' AB assume s': "simR s0 a b s' AB" and l: "length (fst AB) = length A"
    obtain A' B' where AB: "AB = (A', B')" by (cases AB) auto
    have "readEntry s' a i j = A' ! i ! j"
      using sim_readEntry [of s0 a b s' A' B' i j] s' l i by (simp add: AB)
    then show "simR s0 a b (?fS j s') (?fA j (fst AB), snd AB) \<and> length (fst (?fA j (fst AB), snd AB)) = length A"
      using sim_writeEntry [of s0 a b s' A' B' i j] s' l i by (simp add: AB)
  qed
  then have 1: "simR s0 a b (fold ?fS [i..<sz] s) (fold ?fA [i..<sz] A, B)"
    and l1: "length (fold ?fA [i..<sz] A) = length A"
    unfolding fold_on_fst [of ?fA] by simp_all
  have rn: "readNumber (fold ?fS [i..<sz] s) b i = B ! i" by (rule sim_readNumber [OF 1])
  show ?thesis
    using sim_writeNumber [OF 1, of i "B ! i / p"] l1
    by (simp add: normalizeRowS_def normalizeRow_def Let_def rn)
qed

lemma sim_eliminateRow:
  assumes sim: "simR s0 a b s (A, B)" and i: "i < length A" and k: "k < length A"
  shows "simR s0 a b (eliminateRowS a b sz i k s) (eliminateRow sz i k (A, B))
       \<and> length (fst (eliminateRow sz i k (A, B))) = length A"
proof -
  let ?f = "A ! k ! i"
  let ?fS = "\<lambda>j s. writeEntry a k j (readEntry s a k j - ?f * readEntry s a i j) s"
  let ?fA = "\<lambda>j A. A[k := (A ! k)[j := A ! k ! j - ?f * A ! i ! j]]"
  have fac: "readEntry s a k i = ?f" by (rule sim_readEntry [OF sim k])
  have "simR s0 a b (fold ?fS [i..<sz] s) (fold (\<lambda>j AB. (?fA j (fst AB), snd AB)) [i..<sz] (A, B))
      \<and> length (fst (fold (\<lambda>j AB. (?fA j (fst AB), snd AB)) [i..<sz] (A, B))) = length A"
  proof (rule sim_fold [OF sim])
    show "length (fst (A, B)) = length A" by simp
    fix j s' AB assume s': "simR s0 a b s' AB" and l: "length (fst AB) = length A"
    obtain A' B' where AB: "AB = (A', B')" by (cases AB) auto
    have "readEntry s' a k j = A' ! k ! j" "readEntry s' a i j = A' ! i ! j"
      using sim_readEntry [of s0 a b s' A' B' k j] sim_readEntry [of s0 a b s' A' B' i j] s' l i k
      by (simp_all add: AB)
    then show "simR s0 a b (?fS j s') (?fA j (fst AB), snd AB) \<and> length (fst (?fA j (fst AB), snd AB)) = length A"
      using sim_writeEntry [of s0 a b s' A' B' k j] s' l k by (simp add: AB)
  qed
  then have 1: "simR s0 a b (fold ?fS [i..<sz] s) (fold ?fA [i..<sz] A, B)"
    and l1: "length (fold ?fA [i..<sz] A) = length A"
    unfolding fold_on_fst [of ?fA] by simp_all
  have rn: "\<And>q. readNumber (fold ?fS [i..<sz] s) b q = B ! q" by (rule sim_readNumber [OF 1])
  show ?thesis
    using sim_writeNumber [OF 1, of k "B ! k - ?f * B ! i"] l1
    by (simp add: eliminateRowS_def eliminateRow_def Let_def rn fac)
qed

lemma sim_eliminate:
  assumes sim: "simR s0 a b s (A, B)" and i: "i < length A" and sz: "sz \<le> length A"
  shows "simR s0 a b (eliminateS a b sz i s) (eliminate sz i (A, B))
       \<and> length (fst (eliminate sz i (A, B))) = length A"
proof -
  have "\<And>m. m \<le> sz \<Longrightarrow>
      simR s0 a b (fold (\<lambda>k s. if k = i then s else eliminateRowS a b sz i k s) [0..<m] s)
         (fold (\<lambda>k ab. if k = i then ab else eliminateRow sz i k ab) [0..<m] (A, B))
      \<and> length (fst (fold (\<lambda>k ab. if k = i then ab else eliminateRow sz i k ab) [0..<m] (A, B))) = length A"
  proof -
    fix m show "m \<le> sz \<Longrightarrow>
      simR s0 a b (fold (\<lambda>k s. if k = i then s else eliminateRowS a b sz i k s) [0..<m] s)
         (fold (\<lambda>k ab. if k = i then ab else eliminateRow sz i k ab) [0..<m] (A, B))
      \<and> length (fst (fold (\<lambda>k ab. if k = i then ab else eliminateRow sz i k ab) [0..<m] (A, B))) = length A"
    proof (induction m)
      case 0
      then show ?case using sim by simp
    next
      case (Suc m)
      obtain A' B' where st: "fold (\<lambda>k ab. if k = i then ab else eliminateRow sz i k ab) [0..<m] (A, B) = (A', B')"
        by (cases "fold (\<lambda>k ab. if k = i then ab else eliminateRow sz i k ab) [0..<m] (A, B)") auto
      from Suc have IH: "simR s0 a b (fold (\<lambda>k s. if k = i then s else eliminateRowS a b sz i k s) [0..<m] s) (A', B')"
        "length A' = length A" and m: "m < sz"
        by (simp_all add: st)
      have "m < length A'" "i < length A'" using m sz i IH(2) by simp_all
      note er = sim_eliminateRow [OF IH(1) this(2) this(1), of sz]
      show ?case
      proof (cases "m = i")
        case True
        then show ?thesis using IH st by auto
      next
        case False
        then show ?thesis using er IH(2) by (simp add: st)
      qed
    qed
  qed
  from this [of sz] show ?thesis by (simp add: eliminateS_def eliminate_def)
qed

lemma sim_columnStep:
  assumes sim: "simR s0 a b s (A, B)" and i: "i < sz" and sz: "sz \<le> length A"
  shows "simR s0 a b (columnStepS a b sz i s) (columnStep sz i (A, B))
       \<and> length (fst (columnStep sz i (A, B))) = length A"
proof -
  let ?m = "findMaxRow A sz i"
  have m: "findMaxRowS s a sz i = ?m" by (rule sim_findMaxRow [OF sim sz i])
  have mr: "?m < sz" using findMaxRow_spec [OF i, of A] by simp
  have il: "i < length A" "?m < length A" using i sz mr by simp_all
  obtain A1 B1 where s1: "swapRows i ?m (A, B) = (A1, B1)" by (cases "swapRows i ?m (A, B)") auto
  have sim1: "simR s0 a b (swapRowsS a b i ?m s) (A1, B1)"
    using sim_swapRows [OF sim il] by (simp add: s1)
  have l1: "length A1 = length A" using s1 by (auto simp: swapRows_def split: if_splits)
  have p: "pivotOfS (swapRowsS a b i ?m s) a i = pivotOf A1 i"
    using sim_pivotOf [OF sim1] il l1 by simp
  obtain A2 B2 where s2: "normalizeRow sz i (pivotOf A1 i) (A1, B1) = (A2, B2)"
    by (cases "normalizeRow sz i (pivotOf A1 i) (A1, B1)") auto
  have sim2: "simR s0 a b (normalizeRowS a b sz i (pivotOf A1 i) (swapRowsS a b i ?m s)) (A2, B2)"
    and l2: "length A2 = length A"
    using sim_normalizeRow [OF sim1, of i sz "pivotOf A1 i"] il l1 by (simp_all add: s2)
  have "simR s0 a b (eliminateS a b sz i (normalizeRowS a b sz i (pivotOf A1 i) (swapRowsS a b i ?m s)))
          (eliminate sz i (A2, B2))
        \<and> length (fst (eliminate sz i (A2, B2))) = length A2"
    using sim_eliminate [OF sim2, of i sz] il sz l2 by simp
  then show ?thesis
    by (simp add: columnStepS_def columnStep_def Let_def m s1 p s2 l2)
qed

lemma sim_loop:
  assumes sim: "simR s0 a b s (A, B)" and sz: "sz \<le> length A" and k: "k \<le> sz"
  shows "simR s0 a b (fold (columnStepS a b sz) [0..<k] s) (fold (columnStep sz) [0..<k] (A, B))
       \<and> length (fst (fold (columnStep sz) [0..<k] (A, B))) = length A"
  using k
proof (induction k)
  case 0
  then show ?case using sim by simp
next
  case (Suc k)
  obtain A' B' where st: "fold (columnStep sz) [0..<k] (A, B) = (A', B')"
    by (cases "fold (columnStep sz) [0..<k] (A, B)") auto
  from Suc have IH: "simR s0 a b (fold (columnStepS a b sz) [0..<k] s) (A', B')" "length A' = length A"
    and k: "k < sz" by (simp_all add: st)
  from sim_columnStep [OF IH(1) k] sz IH(2) show ?case by (simp add: st)
qed

lemma numbersAt_append: "p < length s \<Longrightarrow> numbersAt (s @ ext) p = numbersAt s p"
  by (simp add: numbersAt_def nth_append)

lemma copyRows_fold:
  assumes "\<forall>r \<in> set rs. r < length s"
  shows "fold (\<lambda>row (s, acc). (s @ [Numbers (numbersAt s row)], acc @ [length s])) rs (s @ ext, acc)
       = (s @ ext @ map (\<lambda>r. Numbers (numbersAt s r)) rs,
          acc @ [length s + length ext..<length s + length ext + length rs])"
  using assms
proof (induction rs arbitrary: ext acc)
  case Nil
  then show ?case by simp
next
  case (Cons r rs)
  have r: "numbersAt (s @ ext) r = numbersAt s r" using Cons.prems by (simp add: numbersAt_append)
  have "fold (\<lambda>row (s, acc). (s @ [Numbers (numbersAt s row)], acc @ [length s])) rs
          (s @ (ext @ [Numbers (numbersAt s r)]), acc @ [length s + length ext])
      = (s @ (ext @ [Numbers (numbersAt s r)]) @ map (\<lambda>r. Numbers (numbersAt s r)) rs,
         (acc @ [length s + length ext])
           @ [length s + length (ext @ [Numbers (numbersAt s r)])..<
              length s + length (ext @ [Numbers (numbersAt s r)]) + length rs])"
    using Cons.prems by (intro Cons.IH) simp
  moreover have "[length s + length ext..<length s + length ext + length (r # rs)]
      = (length s + length ext) # [length s + length (ext @ [Numbers (numbersAt s r)])..<
              length s + length (ext @ [Numbers (numbersAt s r)]) + length rs]"
    by (simp add: upt_rec)
  ultimately show ?case by (simp add: r)
qed

lemma copyRows_spec:
  assumes "\<forall>r \<in> set (rowsAt s matrix). r < length s"
  shows "copyRows s matrix
       = (s @ map (\<lambda>r. Numbers (numbersAt s r)) (rowsAt s matrix),
          [length s..<length s + length (rowsAt s matrix)])"
  using copyRows_fold [OF assms, of "[]" "[]"] by (simp add: copyRows_def)

lemma sim_initial:
  assumes wf: "wfCall s matrix vector"
  shows "simR s (length s + length (rowsAt s matrix)) (length s + length (rowsAt s matrix) + 1)
           (s @ map (\<lambda>r. Numbers (numbersAt s r)) (rowsAt s matrix)
              @ [Rows [length s..<length s + length (rowsAt s matrix)], Numbers (numbersAt s vector)])
           (map (numbersAt s) (rowsAt s matrix), numbersAt s vector)"
proof -
  let ?rs = "rowsAt s matrix"
  let ?n = "length s" and ?m = "length (rowsAt s matrix)"
  let ?copies = "map (\<lambda>r. Numbers (numbersAt s r)) ?rs"
  let ?s3 = "s @ ?copies @ [Rows [?n..<?n + ?m], Numbers (numbersAt s vector)]"
  have at_a: "?s3 ! (?n + ?m) = Rows [?n..<?n + ?m]"
    by (simp add: nth_append)
  have at_b: "?s3 ! (?n + ?m + 1) = Numbers (numbersAt s vector)"
    by (simp add: nth_append)
  have at_row: "\<And>k. k < ?m \<Longrightarrow> ?s3 ! (?n + k) = Numbers (numbersAt s (?rs ! k))"
    by (simp add: nth_append)
  have rows: "rowsAt ?s3 (?n + ?m) = [?n..<?n + ?m]" using at_a by (simp add: rowsAt_def)
  have nb: "numbersAt ?s3 (?n + ?m + 1) = numbersAt s vector" using at_b by (simp add: numbersAt_def)
  have nrow: "\<And>k. k < ?m \<Longrightarrow> numbersAt ?s3 (?n + k) = numbersAt s (?rs ! k)"
    using at_row by (simp add: numbersAt_def)
  have A: "map (numbersAt s) ?rs = map (numbersAt ?s3) [?n..<?n + ?m]"
  proof (rule nth_equalityI)
    show "length (map (numbersAt s) ?rs) = length (map (numbersAt ?s3) [?n..<?n + ?m])" by simp
    fix k assume "k < length (map (numbersAt s) ?rs)"
    then have k: "k < ?m" by simp
    then have "map (numbersAt ?s3) [?n..<?n + ?m] ! k = numbersAt ?s3 (?n + k)" by simp
    then show "map (numbersAt s) ?rs ! k = map (numbersAt ?s3) [?n..<?n + ?m] ! k"
      using nrow [OF k] k by simp
  qed
  show ?thesis
  proof (rule simRI)
    show "take (length s) ?s3 = s" by simp
    show "?s3 ! (?n + ?m) = Rows (rowsAt ?s3 (?n + ?m))" using at_a rows by simp
    show "?s3 ! (?n + ?m + 1) = Numbers (numbersAt ?s3 (?n + ?m + 1))" using at_b nb by simp
    show "distinct (rowsAt ?s3 (?n + ?m))" by (simp add: rows)
    show "\<forall>r \<in> set (rowsAt ?s3 (?n + ?m)).
        length s \<le> r \<and> r < length ?s3 \<and> r \<noteq> ?n + ?m \<and> r \<noteq> ?n + ?m + 1"
      unfolding rows by auto
    show "map (numbersAt s) ?rs = map (numbersAt ?s3) (rowsAt ?s3 (?n + ?m))"
      unfolding rows by (rule A)
    show "numbersAt s vector = numbersAt ?s3 (?n + ?m + 1)" using nb by simp
  qed simp_all
qed

lemma solveLinearSystemS_unfold:
  assumes wf: "wfCall s matrix vector"
  shows "solveLinearSystemS s matrix vector
       = (length s + length (rowsAt s matrix) + 1,
          fold (columnStepS (length s + length (rowsAt s matrix)) (length s + length (rowsAt s matrix) + 1)
                  (length (numbersAt s vector)))
            [0..<length (numbersAt s vector)]
            (s @ map (\<lambda>r. Numbers (numbersAt s r)) (rowsAt s matrix)
               @ [Rows [length s..<length s + length (rowsAt s matrix)], Numbers (numbersAt s vector)]))"
proof -
  have rs: "\<forall>r \<in> set (rowsAt s matrix). r < length s" and v: "vector < length s"
    using wf by (simp_all add: wfCall_def)
  have nv: "numbersAt (s @ map (\<lambda>r. Numbers (numbersAt s r)) (rowsAt s matrix)
                @ [Rows [length s..<length s + length (rowsAt s matrix)]]) vector = numbersAt s vector"
    using v by (rule numbersAt_append)
  show ?thesis
    by (simp add: solveLinearSystemS_def Let_def copyRows_spec [OF rs] nv)
qed

lemma solveLinearSystemS_sim:
  assumes wf: "wfCall s matrix vector"
  shows "simR s (length s + length (rowsAt s matrix)) (fst (solveLinearSystemS s matrix vector))
           (snd (solveLinearSystemS s matrix vector))
           (fold (columnStep (length (numbersAt s vector))) [0..<length (numbersAt s vector)]
              (map (numbersAt s) (rowsAt s matrix), numbersAt s vector))"
proof -
  have sz: "length (numbersAt s vector) \<le> length (map (numbersAt s) (rowsAt s matrix))"
    using wf by (simp add: wfCall_def)
  from sim_loop [OF sim_initial [OF wf] sz order_refl]
  show ?thesis by (simp add: solveLinearSystemS_unfold [OF wf])
qed

text \<open>
  Claim C10. \<^verbatim>\<open>solveLinearSystem\<close> leaves its arguments unchanged. After a call on a
  matrix and a vector of the store (with a row and a column for every entry of the
  vector, \<open>wfCall\<close>), every object that was in the store before the call is as it
  was: the matrix still holds the same row addresses, the rows and the vector
  hold the same numbers. All writes of the elimination go to the copies the function
  allocates at the start, and the result is one of them. The numbers it returns are
  those of the value model.
\<close>

theorem solveLinearSystem_leaves_arguments_unchanged:
  assumes "wfCall s matrix vector"
  shows "take (length s) (snd (solveLinearSystemS s matrix vector)) = s
       \<and> rowsAt (snd (solveLinearSystemS s matrix vector)) matrix = rowsAt s matrix
       \<and> map (numbersAt (snd (solveLinearSystemS s matrix vector))) (rowsAt s matrix)
           = map (numbersAt s) (rowsAt s matrix)
       \<and> numbersAt (snd (solveLinearSystemS s matrix vector)) vector = numbersAt s vector
       \<and> length s \<le> fst (solveLinearSystemS s matrix vector)
       \<and> numbersAt (snd (solveLinearSystemS s matrix vector)) (fst (solveLinearSystemS s matrix vector))
           = solveLinearSystem (map (numbersAt s) (rowsAt s matrix)) (numbersAt s vector)"
proof -
  let ?s' = "snd (solveLinearSystemS s matrix vector)"
  obtain A B where f: "fold (columnStep (length (numbersAt s vector))) [0..<length (numbersAt s vector)]
              (map (numbersAt s) (rowsAt s matrix), numbersAt s vector) = (A, B)"
    by (cases "fold (columnStep (length (numbersAt s vector))) [0..<length (numbersAt s vector)]
              (map (numbersAt s) (rowsAt s matrix), numbersAt s vector)") auto
  note d = simRD [OF solveLinearSystemS_sim [OF assms, unfolded f]]
  have tk: "take (length s) ?s' = s" by (rule d(1))
  have same: "\<And>p. p < length s \<Longrightarrow> ?s' ! p = s ! p"
  proof -
    fix p assume "p < length s"
    then have "take (length s) ?s' ! p = ?s' ! p" by simp
    then show "?s' ! p = s ! p" using tk by simp
  qed
  have m: "matrix < length s" "vector < length s" "\<forall>r \<in> set (rowsAt s matrix). r < length s"
    using assms by (simp_all add: wfCall_def)
  have 1: "rowsAt ?s' matrix = rowsAt s matrix" using same [OF m(1)] by (simp add: rowsAt_def)
  have 2: "map (numbersAt ?s') (rowsAt s matrix) = map (numbersAt s) (rowsAt s matrix)"
    using m(3) same by (intro map_cong) (auto simp: numbersAt_def)
  have 3: "numbersAt ?s' vector = numbersAt s vector" using same [OF m(2)] by (simp add: numbersAt_def)
  have 4: "numbersAt ?s' (fst (solveLinearSystemS s matrix vector))
      = solveLinearSystem (map (numbersAt s) (rowsAt s matrix)) (numbersAt s vector)"
    using d(12) by (simp add: solveLinearSystem_def Let_def f)
  show ?thesis using tk 1 2 3 4 d(4) by simp
qed

theorem solveLinearSystem_leaves_arguments_unchanged_witness:
  "wfCall exampleStore 2 3
   \<and> take (length exampleStore) (snd (solveLinearSystemS exampleStore 2 3)) = exampleStore
   \<and> numbersAt (snd (solveLinearSystemS exampleStore 2 3)) 3 = [3, 5]
   \<and> map (numbersAt (snd (solveLinearSystemS exampleStore 2 3))) [0, 1] = [[2, 1], [1, 3]]
   \<and> numbersAt (snd (solveLinearSystemS exampleStore 2 3)) (fst (solveLinearSystemS exampleStore 2 3))
       = [4 / 5, 7 / 5]"
proof -
  have wf: "wfCall exampleStore 2 3"
    by (simp add: wfCall_def exampleStore_def rowsAt_def numbersAt_def)
  have v: "numbersAt exampleStore 3 = [3, 5]" "rowsAt exampleStore 2 = [0, 1]"
    "map (numbersAt exampleStore) [0, 1] = [[2, 1], [1, 3]]"
    by (simp_all add: exampleStore_def numbersAt_def rowsAt_def)
  have ev: "solveLinearSystem [[2, 1], [1, 3]] [3, 5] = [4 / 5, 7 / 5]"
    by code_simp
  show ?thesis
    using solveLinearSystem_leaves_arguments_unchanged [OF wf] wf
    unfolding v ev by blast
qed

text \<open>The store model runs: a system of one equation.\<close>

lemma solveLinearSystemS_run: "solveLinearSystemS [Numbers [2], Rows [0], Numbers [3]] 1 2
       = (5, [Numbers [2], Rows [0], Numbers [3], Numbers [1], Rows [3], Numbers [3 / 2]])"
  by code_simp

end
